theory Spec2Isabelle
  imports Main
begin

section \<open>STUTTER (src/sipd.c): cells, heap and global state\<close>

text \<open>
  The interpreter keeps every value in a fixed array of cells. A cell has a type tag,
  a mark bit and two untyped pointer fields (\<^verbatim>\<open>void *car, *cdr\<close>). Depending on the
  tag the \<^verbatim>\<open>car\<close> field holds another cell, the name of an atom (\<^verbatim>\<open>char *\<close>) or the
  address of a C primitive. A pointer value is therefore one of: the null pointer, the
  address \<open>heap + i\<close> of the cell with index \<open>i\<close>, a string, or a primitive.
\<close>

datatype CELL_TYPE = CELL_LAMBDA | CELL_SFUNC | CELL_VFUNC | CELL_LIST | CELL_ATOM

datatype prim = F_car | F_cdr | F_cons | F_set | F_equal | F_quote | F_lambda | F_lisp_if

datatype ptr = NULL | Cell nat | Str string | Fn prim

record CELL =
  cell_car :: ptr
  cell_cdr :: ptr
  cell_type :: CELL_TYPE
  cell_mark :: bool

text \<open>
  The scanner object of \<^verbatim>\<open>scan_init\<close> (src/psplot.c, the part taken from misc.c). A
  stream is modelled by the characters that have not been read from it yet. \<open>scan_ptr\<close>
  is the C string that \<^verbatim>\<open>s->ptr\<close> points to, that is the rest of the line buffer, and
  \<open>None\<close> when the pointer is null. The token buffer is the value that the scanner
  returns.
\<close>

record SCANNER =
  scan_fp :: string
  scan_delims :: string
  scan_whites :: string
  scan_comments :: string
  scan_ptr :: "string option"

text \<open>
  The globals of the program. \<open>heap\<close> is the cell array (\<open>heap_size\<close> is its length),
  \<open>protect_table\<close> holds the entries \<open>0 ..< protect_used\<close> of the C table (the entries
  above \<open>protect_used\<close> are never read, and the table grows on demand), \<open>init\<close> is the
  static flag of \<^verbatim>\<open>new_cell\<close>, \<open>stdin\<close> is the standard input of the process,
  \<open>scan\<close> is the scanner (\<open>None\<close> while the pointer is null; from \<^verbatim>\<open>scan_init\<close> on
  the scanner is the only reader of the input, which then lives in its \<open>scan_fp\<close>), and
  \<open>out\<close> and \<open>err\<close> collect what is written to stdout and stderr, one entry per
  call of \<^verbatim>\<open>printf\<close>.
\<close>

record state =
  heap :: "CELL list"
  free_list :: ptr
  binding_list :: ptr
  protect_table :: "ptr list"
  nil_cell :: ptr
  quote_cell :: ptr
  error_cell :: ptr
  true_cell :: ptr
  init :: bool
  stdin :: string
  scan :: "SCANNER option"
  out :: "string list"
  err :: "string list"

text \<open>
  How a call ends: it returns a value in a new state, the process exits with a status
  (\<^verbatim>\<open>exit(1)\<close> in the collector), the C behaviour is undefined (a null or a non-cell
  pointer is dereferenced), or the model's fuel ran out.
\<close>

datatype 'a outcome = Done 'a state | Exited int state | Undefined | OutOfFuel

definition bnd :: "'a outcome \<Rightarrow> ('a \<Rightarrow> state \<Rightarrow> 'b outcome) \<Rightarrow> 'b outcome" where
  "bnd m f = (case m of Done x s \<Rightarrow> f x s | Exited k s \<Rightarrow> Exited k s
                | Undefined \<Rightarrow> Undefined | OutOfFuel \<Rightarrow> OutOfFuel)"

definition heap_size :: "state \<Rightarrow> nat" where
  "heap_size s = length (heap s)"

definition deref :: "ptr \<Rightarrow> state \<Rightarrow> CELL option" where
  "deref p s = (case p of Cell i \<Rightarrow> if i < length (heap s) then Some (heap s ! i) else None
                 | _ \<Rightarrow> None)"

definition printf :: "string \<Rightarrow> state \<Rightarrow> state" where
  "printf msg s = s\<lparr>out := out s @ [msg]\<rparr>"

definition eprintf :: "string \<Rightarrow> state \<Rightarrow> state" where
  "eprintf msg s = s\<lparr>err := err s @ [msg]\<rparr>"

fun dec :: "nat \<Rightarrow> string" where
  "dec n = (if n < 10 then [char_of (48 + n)] else dec (n div 10) @ [char_of (48 + n mod 10)])"

declare dec.simps [simp del]

section \<open>The collector\<close>

text \<open>
  \<^verbatim>\<open>mark\<close>: return on a null pointer or a marked cell; otherwise set the mark and, for a
  lambda or a list, mark the car and then the cdr. A pointer that is not a cell of the
  heap cannot be dereferenced in C; the model leaves the heap as it is there.
\<close>

function mark :: "ptr \<Rightarrow> CELL list \<Rightarrow> CELL list" where
  "mark cell h =
     (case cell of
        Cell i \<Rightarrow>
          if i < length h then
            if cell_mark (h ! i) then h
            else
              let h1 = h[i := (h ! i)\<lparr>cell_mark := True\<rparr>] in
              if cell_type (h1 ! i) = CELL_LAMBDA \<or> cell_type (h1 ! i) = CELL_LIST then
                let h2 = mark (cell_car (h1 ! i)) h1 in
                mark (cell_cdr (h2 ! i)) h2
              else h1
          else h
      | _ \<Rightarrow> h)"
  by pat_completeness auto

definition unmarked :: "CELL list \<Rightarrow> nat" where
  "unmarked h = length (filter (\<lambda>c. \<not> cell_mark c) h)"

lemma unmarked_set_mark:
  "i < length h \<Longrightarrow> \<not> cell_mark (h ! i) \<Longrightarrow>
   unmarked (h[i := (h ! i)\<lparr>cell_mark := True\<rparr>]) < unmarked h"
proof (induction h arbitrary: i)
  case Nil
  then show ?case by simp
next
  case (Cons c h)
  show ?case
  proof (cases i)
    case 0
    with Cons.prems show ?thesis by (simp add: unmarked_def)
  next
    case (Suc j)
    with Cons.prems Cons.IH [of j] show ?thesis by (simp add: unmarked_def)
  qed
qed

lemma mark_dom_unmarked:
  "mark_dom (cell, h) \<Longrightarrow> unmarked (mark cell h) \<le> unmarked h"
proof (induction cell h rule: mark.pinduct)
  case (1 cell h)
  show ?case
  proof (cases cell)
    case (Cell i)
    show ?thesis
    proof (cases "i < length h \<and> \<not> cell_mark (h ! i)")
      case False
      with Cell 1 show ?thesis by (auto simp: mark.psimps)
    next
      case True
      define h1 where "h1 = h[i := (h ! i)\<lparr>cell_mark := True\<rparr>]"
      have lt: "unmarked h1 < unmarked h"
        using True unmarked_set_mark [of i h] by (simp add: h1_def)
      show ?thesis
      proof (cases "cell_type (h1 ! i) = CELL_LAMBDA \<or> cell_type (h1 ! i) = CELL_LIST")
        case False
        with Cell True 1(1) lt show ?thesis
          by (simp add: mark.psimps h1_def Let_def)
      next
        case rec: True
        define h2 where "h2 = mark (cell_car (h1 ! i)) h1"
        have a: "unmarked h2 \<le> unmarked h1"
          using 1(2) [OF Cell _ _ h1_def rec] True by (simp add: h2_def)
        have b: "unmarked (mark (cell_cdr (h2 ! i)) h2) \<le> unmarked h2"
          using 1(3) [OF Cell _ _ h1_def rec h2_def] True by simp
        have "mark cell h = mark (cell_cdr (h2 ! i)) h2"
          using Cell True rec 1(1) by (simp add: mark.psimps h1_def h2_def Let_def)
        with a b lt show ?thesis by simp
      qed
    qed
  qed (use 1 in \<open>simp_all add: mark.psimps\<close>)
qed

termination mark
proof (relation "measure (\<lambda>(cell, h). unmarked h)")
  show "wf (measure (\<lambda>(cell, h). unmarked h))" by simp
next
  fix cell :: ptr and h :: "CELL list" and i h1
  assume "cell = Cell i" "i < length h" "\<not> cell_mark (h ! i)"
    and h1: "h1 = h[i := (h ! i)\<lparr>cell_mark := True\<rparr>]"
  then show "((cell_car (h1 ! i), h1), (cell, h)) \<in> measure (\<lambda>(cell, h). unmarked h)"
    using unmarked_set_mark [of i h] by simp
next
  fix cell :: ptr and h :: "CELL list" and i h1 h2
  assume "cell = Cell i" "i < length h" "\<not> cell_mark (h ! i)"
    and h1: "h1 = h[i := (h ! i)\<lparr>cell_mark := True\<rparr>]"
    and h2: "h2 = mark (cell_car (h1 ! i)) h1"
    and dom: "mark_dom (cell_car (h1 ! i), h1)"
  then show "((cell_cdr (h2 ! i), h2), (cell, h)) \<in> measure (\<lambda>(cell, h). unmarked h)"
    using unmarked_set_mark [of i h] mark_dom_unmarked [OF dom] by simp
qed

declare mark.simps [simp del]


text \<open>
  \<^verbatim>\<open>garbage_collect\<close>: mark from the binding list and from every entry of the protection
  table, then scan the heap from index 0 up: an unmarked cell is pushed on the free list
  (through its car field) and counted, and every mark is cleared. When nothing was
  harvested the process exits with status 1.
\<close>

definition mark_roots :: "state \<Rightarrow> CELL list" where
  "mark_roots s = foldl (\<lambda>h p. mark p h) (mark (binding_list s) (heap s)) (protect_table s)"

definition sweep_step :: "CELL list \<times> ptr \<times> nat \<Rightarrow> nat \<Rightarrow> CELL list \<times> ptr \<times> nat" where
  "sweep_step acc i =
     (case acc of (h, fl, count) \<Rightarrow>
        if \<not> cell_mark (h ! i)
        then (h[i := (h ! i)\<lparr>cell_car := fl, cell_mark := False\<rparr>], Cell i, count + 1)
        else (h[i := (h ! i)\<lparr>cell_mark := False\<rparr>], fl, count))"

definition sweep :: "CELL list \<Rightarrow> ptr \<Rightarrow> CELL list \<times> ptr \<times> nat" where
  "sweep h fl = foldl sweep_step (h, fl, 0) [0..<length h]"

definition gc_failed_msg :: string where
  "gc_failed_msg = CHR 0x0A # ''Garbage collection failed!'' @ [CHR 0x0A]"

definition garbage_collect :: "state \<Rightarrow> unit outcome" where
  "garbage_collect s0 =
     (let s = eprintf ''Garbage collecting...'' s0 in
      case sweep (mark_roots s) (free_list s) of (h, fl, count) \<Rightarrow>
        let s' = s\<lparr>heap := h, free_list := fl\<rparr> in
        if count = 0 then Exited 1 (eprintf gc_failed_msg s')
        else Done () (eprintf (''harvested '' @ dec count @ '' cells.'' @ [CHR 0x0A]) s'))"

section \<open>The protection stack and the allocator\<close>

definition protect :: "ptr \<Rightarrow> state \<Rightarrow> state" where
  "protect cell s = s\<lparr>protect_table := protect_table s @ [cell]\<rparr>"

text \<open>
  \<^verbatim>\<open>unprotect\<close> is \<^verbatim>\<open>protect_used--\<close>. Every caller pairs it with an earlier
  \<^verbatim>\<open>protect\<close>; on an empty table the C counter would become negative, where the model
  keeps the table empty.
\<close>

definition unprotect :: "state \<Rightarrow> state" where
  "unprotect s = s\<lparr>protect_table := butlast (protect_table s)\<rparr>"

text \<open>
  The first call of \<^verbatim>\<open>new_cell\<close> obtains the heap from \<^verbatim>\<open>xmalloc\<close> and threads all of
  it on the free list. The block is not initialised by \<^verbatim>\<open>xmalloc\<close>: the model
  takes its contents (tags, marks, cdr fields) from the \<open>heap\<close> field of the state in which
  \<open>init\<close> is still false. With \<^verbatim>\<open>heap_size = 0\<close> the C code writes outside the block.
\<close>

definition link_heap :: "CELL list \<Rightarrow> CELL list" where
  "link_heap h =
     map (\<lambda>i. (h ! i)\<lparr>cell_car := (if i + 1 < length h then Cell (i + 1) else NULL)\<rparr>)
       [0..<length h]"

text \<open>
  \<open>pop_free\<close> is the tail of \<^verbatim>\<open>new_cell\<close>: take the first cell off the free list, set
  its tag, clear both fields and the mark.
\<close>

definition pop_free :: "CELL_TYPE \<Rightarrow> state \<Rightarrow> ptr outcome" where
  "pop_free t s =
     (case free_list s of
        Cell i \<Rightarrow>
          if i < length (heap s) then
            Done (Cell i)
              (s\<lparr>free_list := cell_car (heap s ! i),
                 heap := (heap s)[i := (heap s ! i)\<lparr>cell_type := t, cell_cdr := NULL,
                                                    cell_car := NULL, cell_mark := False\<rparr>]\<rparr>)
          else Undefined
      | _ \<Rightarrow> Undefined)"

definition heap_init :: "state \<Rightarrow> state" where
  "heap_init s = s\<lparr>init := True, heap := link_heap (heap s), free_list := Cell 0\<rparr>"

definition new_cell :: "CELL_TYPE \<Rightarrow> state \<Rightarrow> ptr outcome" where
  "new_cell t s0 =
     (if \<not> init s0 \<and> heap s0 = [] then Undefined
      else
        let s = (if \<not> init s0 then heap_init s0 else s0)
        in bnd (if free_list s = NULL then garbage_collect s else Done () s)
             (\<lambda>_ s. pop_free t s))"

definition cell_car_assign :: "ptr \<Rightarrow> ptr \<Rightarrow> state \<Rightarrow> unit outcome" where
  "cell_car_assign c v s =
     (case c of
        Cell i \<Rightarrow> if i < length (heap s)
                  then Done () (s\<lparr>heap := (heap s)[i := (heap s ! i)\<lparr>cell_car := v\<rparr>]\<rparr>)
                  else Undefined
      | _ \<Rightarrow> Undefined)"

definition cell_cdr_assign :: "ptr \<Rightarrow> ptr \<Rightarrow> state \<Rightarrow> unit outcome" where
  "cell_cdr_assign c v s =
     (case c of
        Cell i \<Rightarrow> if i < length (heap s)
                  then Done () (s\<lparr>heap := (heap s)[i := (heap s ! i)\<lparr>cell_cdr := v\<rparr>]\<rparr>)
                  else Undefined
      | _ \<Rightarrow> Undefined)"

section \<open>Atoms\<close>

text \<open>
  The search loop of \<^verbatim>\<open>new_atom\<close>: walk the binding list and compare the name of the atom
  of each pair with \<open>name\<close>. The result is the atom found, or \<open>None\<close> when the loop ends
  without a match. The loop runs as long as the list goes on, so it takes fuel.
\<close>

fun find_atom :: "nat \<Rightarrow> ptr \<Rightarrow> string \<Rightarrow> state \<Rightarrow> ptr option outcome" where
  "find_atom 0 current name s = OutOfFuel"
| "find_atom (Suc n) current name s =
     (if current \<noteq> nil_cell s \<and> current \<noteq> NULL then
        case deref current s of
          None \<Rightarrow> Undefined
        | Some c \<Rightarrow>
            (case deref (cell_car c) s of
               None \<Rightarrow> Undefined
             | Some pair \<Rightarrow>
                 (case deref (cell_car pair) s of
                    None \<Rightarrow> Undefined
                  | Some atom \<Rightarrow>
                      (case cell_car atom of
                         Str nm \<Rightarrow> if nm = name then Done (Some (cell_car pair)) s
                                   else find_atom n (cell_cdr c) name s
                       | _ \<Rightarrow> Undefined)))
      else Done None s)"

definition new_atom :: "nat \<Rightarrow> string \<Rightarrow> state \<Rightarrow> ptr outcome" where
  "new_atom n name s0 =
     bnd (find_atom n (binding_list s0) name s0) (\<lambda>found s.
       case found of
         Some a \<Rightarrow> Done a s
       | None \<Rightarrow>
           bnd (new_cell CELL_LIST s) (\<lambda>current s.
           bnd (new_cell CELL_ATOM s) (\<lambda>atom s.
           bnd (cell_car_assign current atom s) (\<lambda>_ s.
           bnd (cell_cdr_assign current NULL s) (\<lambda>_ s.
           bnd (cell_car_assign atom (Str name) s) (\<lambda>_ s.
           bnd (new_cell CELL_LIST (protect current s)) (\<lambda>list s.
           bnd (cell_car_assign list current (unprotect s)) (\<lambda>_ s.
           bnd (cell_cdr_assign list (binding_list s) s) (\<lambda>_ s.
             Done atom (s\<lparr>binding_list := list\<rparr>))))))))))"

section \<open>Value functions\<close>

definition cons :: "ptr \<Rightarrow> ptr \<Rightarrow> state \<Rightarrow> ptr outcome" where
  "cons a b s0 =
     (if a = error_cell s0 \<or> b = error_cell s0 then Done (error_cell s0) s0
      else
        case deref b s0 of
          None \<Rightarrow> Undefined
        | Some cb \<Rightarrow>
            if \<not> (cell_type cb = CELL_LIST \<or> b = nil_cell s0)
            then Done (error_cell s0) (printf ''Error: cons: second argument is not a list.'' s0)
            else
              bnd (new_cell CELL_LIST (protect b (protect a s0))) (\<lambda>c s.
              bnd (cell_car_assign c a (unprotect (unprotect s))) (\<lambda>_ s.
              bnd (if b = nil_cell s then cell_cdr_assign c NULL s else cell_cdr_assign c b s)
                (\<lambda>_ s. Done c s))))"

definition car :: "ptr \<Rightarrow> ptr \<Rightarrow> state \<Rightarrow> ptr outcome" where
  "car a b s =
     (if a = error_cell s then Done (error_cell s) s
      else if a = nil_cell s then Done (nil_cell s) s
      else
        case deref a s of
          None \<Rightarrow> Undefined
        | Some ca \<Rightarrow>
            if cell_type ca \<noteq> CELL_LIST
            then Done (error_cell s) (printf ''Error: car: argument is not a list.'' s)
            else Done (cell_car ca) s)"

definition cdr :: "ptr \<Rightarrow> ptr \<Rightarrow> state \<Rightarrow> ptr outcome" where
  "cdr a b s =
     (if a = error_cell s then Done (error_cell s) s
      else if a = nil_cell s then Done (nil_cell s) s
      else
        case deref a s of
          None \<Rightarrow> Undefined
        | Some ca \<Rightarrow>
            if cell_type ca \<noteq> CELL_LIST
            then Done (error_cell s) (printf ''Error: cdr: argument is not a list.'' s)
            else if cell_cdr ca = NULL then Done (nil_cell s) s
            else Done (cell_cdr ca) s)"

text \<open>
  The search loop of \<^verbatim>\<open>set\<close>: the first pair whose atom is \<open>a\<close> gets \<open>b\<close> as its value.
  The result says whether a pair was found.
\<close>

fun set_loop :: "nat \<Rightarrow> ptr \<Rightarrow> ptr \<Rightarrow> ptr \<Rightarrow> state \<Rightarrow> bool outcome" where
  "set_loop 0 current a b s = OutOfFuel"
| "set_loop (Suc n) current a b s =
     (if current \<noteq> nil_cell s \<and> current \<noteq> NULL then
        case deref current s of
          None \<Rightarrow> Undefined
        | Some c \<Rightarrow>
            (case deref (cell_car c) s of
               None \<Rightarrow> Undefined
             | Some pair \<Rightarrow>
                 if cell_car pair = a
                 then bnd (cell_cdr_assign (cell_car c) b s) (\<lambda>_ s. Done True s)
                 else set_loop n (cell_cdr c) a b s)
      else Done False s)"

definition set_lisp :: "nat \<Rightarrow> ptr \<Rightarrow> ptr \<Rightarrow> state \<Rightarrow> ptr outcome" where
  "set_lisp n a b s0 =
     (if a = error_cell s0 \<or> b = error_cell s0 then Done (error_cell s0) s0
      else
        case deref a s0 of
          None \<Rightarrow> Undefined
        | Some ca \<Rightarrow>
            if cell_type ca \<noteq> CELL_ATOM
            then Done (error_cell s0) (printf ''Error: set: first argument is not an atom.'' s0)
            else
              bnd (set_loop n (binding_list s0) a b s0) (\<lambda>found s.
                if found then Done b s
                else
                  bnd (new_cell CELL_LIST (protect b (protect a s))) (\<lambda>current s.
                  bnd (cell_car_assign current a (unprotect (unprotect s))) (\<lambda>_ s.
                  bnd (cell_cdr_assign current b s) (\<lambda>_ s.
                  bnd (new_cell CELL_LIST (protect current s)) (\<lambda>list s.
                  bnd (cell_car_assign list current (unprotect s)) (\<lambda>_ s.
                  bnd (cell_cdr_assign list (binding_list s) s) (\<lambda>_ s.
                    Done b (s\<lparr>binding_list := list\<rparr>)))))))))"

definition equal_lisp :: "ptr \<Rightarrow> ptr \<Rightarrow> state \<Rightarrow> ptr outcome" where
  "equal_lisp a b s =
     (if a = NULL then Done (nil_cell s) s
      else
        case deref a s of
          None \<Rightarrow> Undefined
        | Some ca \<Rightarrow>
            if cell_type ca = CELL_ATOM \<and> a = b then Done (true_cell s) s
            else Done (nil_cell s) s)"

section \<open>Special functions and the evaluator\<close>

definition quote :: "ptr \<Rightarrow> state \<Rightarrow> ptr outcome" where
  "quote expr s = car expr NULL s"

text \<open>
  The loop of \<^verbatim>\<open>lambda\<close> that checks the formal argument list: every element must be an
  atom. The result says whether the list passed.
\<close>

fun check_formals :: "nat \<Rightarrow> ptr \<Rightarrow> state \<Rightarrow> bool outcome" where
  "check_formals 0 c s = OutOfFuel"
| "check_formals (Suc n) c s =
     (if c \<noteq> NULL then
        case deref c s of
          None \<Rightarrow> Undefined
        | Some cc \<Rightarrow>
            (case deref (cell_car cc) s of
               None \<Rightarrow> Undefined
             | Some e \<Rightarrow>
                 if cell_type e \<noteq> CELL_ATOM then Done False s
                 else check_formals n (cell_cdr cc) s)
      else Done True s)"

definition lambda :: "nat \<Rightarrow> ptr \<Rightarrow> state \<Rightarrow> ptr outcome" where
  "lambda n expr s0 =
     bnd (new_cell CELL_LAMBDA (protect expr s0)) (\<lambda>ufunc s.
     bnd (car expr NULL (unprotect s)) (\<lambda>x s.
     bnd (cell_car_assign ufunc x s) (\<lambda>_ s.
     bnd (cdr expr NULL s) (\<lambda>d s.
     bnd (car d NULL s) (\<lambda>y s.
     bnd (cell_cdr_assign ufunc y s) (\<lambda>_ s.
       if x = error_cell s \<or> y = error_cell s then Done (error_cell s) s
       else
         case deref x s of
           None \<Rightarrow> Undefined
         | Some cx \<Rightarrow>
             if cell_type cx \<noteq> CELL_LIST \<and> x \<noteq> nil_cell s
             then Done (error_cell s) (printf ''Error: bad argument list supplied.'' s)
             else if x \<noteq> nil_cell s then
               bnd (check_formals n x s) (\<lambda>ok s.
                 if ok then Done ufunc s
                 else Done (error_cell s) (printf ''Error: bad argument list supplied.'' s))
             else Done ufunc s))))))"

definition unbound_msg :: "ptr \<Rightarrow> string" where
  "unbound_msg nm = ''Error: unbound atom '' @ [CHR 0x22] @ (case nm of Str x \<Rightarrow> x | _ \<Rightarrow> [])
                     @ [CHR 0x22] @ ''.''"

text \<open>
  \<^verbatim>\<open>eval_atom\<close>: the loop over the binding list, \<open>cell\<close> being the loop variable. The
  message prints the name of the atom as a string, which is undefined when the car of
  \<open>expr\<close> is not a string.
\<close>

definition unbound :: "ptr \<Rightarrow> state \<Rightarrow> ptr outcome" where
  "unbound expr s =
     (case deref expr s of
        None \<Rightarrow> Undefined
      | Some ce \<Rightarrow>
          (case cell_car ce of
             Str nm \<Rightarrow> Done (error_cell s) (printf (unbound_msg (Str nm)) s)
           | _ \<Rightarrow> Undefined))"

fun eval_atom_loop :: "nat \<Rightarrow> ptr \<Rightarrow> ptr \<Rightarrow> state \<Rightarrow> ptr outcome" where
  "eval_atom_loop 0 cell expr s = OutOfFuel"
| "eval_atom_loop (Suc n) cell expr s =
     (if cell \<noteq> NULL then
        case deref cell s of
          None \<Rightarrow> Undefined
        | Some c \<Rightarrow>
            (case deref (cell_car c) s of
               None \<Rightarrow> Undefined
             | Some pair \<Rightarrow>
                 if cell_car pair = expr then
                   if cell_cdr pair = NULL then unbound expr s
                   else Done (cell_cdr pair) s
                 else eval_atom_loop n (cell_cdr c) expr s)
      else unbound expr s)"

definition eval_atom :: "nat \<Rightarrow> ptr \<Rightarrow> state \<Rightarrow> ptr outcome" where
  "eval_atom n expr s = eval_atom_loop n (binding_list s) expr s"

text \<open>
  The second loop of \<^verbatim>\<open>eval_lambda\<close> pushes the pairs of \<open>blist\<close> on the global binding
  list; the \<^verbatim>\<open>for\<close> loop at its end takes \<open>count\<close> cells off the binding list again.
\<close>

fun push_bindings :: "nat \<Rightarrow> ptr \<Rightarrow> state \<Rightarrow> unit outcome" where
  "push_bindings 0 blist s = OutOfFuel"
| "push_bindings (Suc n) blist s =
     (if blist \<noteq> NULL \<and> blist \<noteq> nil_cell s then
        case deref blist s of
          None \<Rightarrow> Undefined
        | Some cb \<Rightarrow>
            bnd (cons (cell_car cb) (binding_list s) s) (\<lambda>c s.
              case deref blist s of
                None \<Rightarrow> Undefined
              | Some cb' \<Rightarrow> push_bindings n (cell_cdr cb') (s\<lparr>binding_list := c\<rparr>))
      else Done () s)"

fun pop_bindings :: "nat \<Rightarrow> state \<Rightarrow> unit outcome" where
  "pop_bindings 0 s = Done () s"
| "pop_bindings (Suc k) s =
     (case deref (binding_list s) s of
        None \<Rightarrow> Undefined
      | Some c \<Rightarrow> pop_bindings k (s\<lparr>binding_list := cell_cdr c\<rparr>))"

text \<open>
  The evaluator. \<^verbatim>\<open>eval_lisp\<close>, \<^verbatim>\<open>eval_lambda\<close> and \<^verbatim>\<open>lisp_if\<close> call each other, and
  \<open>bind_args\<close> is the first loop of \<^verbatim>\<open>eval_lambda\<close> (its variables \<open>argn\<close>, \<open>argv\<close>,
  \<open>blist\<close>, \<open>count\<close> and \<open>cell\<close> are the arguments, and the values of \<open>blist\<close>, \<open>count\<close>
  and \<open>cell\<close> at its end the result). A Lisp program need not terminate, so every call
  and every iteration takes one unit of fuel. A primitive is called through the
  function pointer in the car of the function cell; a cell that does not hold a
  primitive of the matching kind cannot be called.
\<close>

function (sequential) eval_lisp :: "nat \<Rightarrow> ptr \<Rightarrow> state \<Rightarrow> ptr outcome"
  and eval_lambda :: "nat \<Rightarrow> ptr \<Rightarrow> ptr \<Rightarrow> state \<Rightarrow> ptr outcome"
  and bind_args :: "nat \<Rightarrow> ptr \<Rightarrow> ptr \<Rightarrow> ptr \<Rightarrow> int \<Rightarrow> ptr \<Rightarrow> state \<Rightarrow> (ptr \<times> int \<times> ptr) outcome"
  and lisp_if :: "nat \<Rightarrow> ptr \<Rightarrow> state \<Rightarrow> ptr outcome"
where
  "eval_lisp 0 expr s0 = OutOfFuel"
| "eval_lisp (Suc n) expr s0 =
     (if expr = error_cell s0 then Done (error_cell s0) s0
      else
        case deref expr s0 of
          None \<Rightarrow> Undefined
        | Some ce \<Rightarrow>
            if cell_type ce = CELL_ATOM then eval_atom n expr s0
            else if cell_type ce = CELL_LIST then
              bnd (eval_lisp n (cell_car ce) (protect expr s0)) (\<lambda>func s.
                if func = error_cell s then Done (error_cell s) (unprotect s)
                else
                  case (deref func s, deref expr s) of
                    (Some cf, Some ce') \<Rightarrow>
                      if cell_type cf = CELL_VFUNC then
                        bnd (car (cell_cdr ce') NULL s) (\<lambda>x s.
                        bnd (eval_lisp n x s) (\<lambda>a s.
                        case deref expr s of
                          None \<Rightarrow> Undefined
                        | Some ce'' \<Rightarrow>
                        bnd (cdr (cell_cdr ce'') NULL (protect a s)) (\<lambda>y s.
                        bnd (car y NULL s) (\<lambda>z s.
                        bnd (eval_lisp n z s) (\<lambda>b s1.
                          let s = unprotect (unprotect s1) in
                          case deref func s of
                            None \<Rightarrow> Undefined
                          | Some cf' \<Rightarrow>
                              (case cell_car cf' of
                                 Fn F_car \<Rightarrow> car a b s
                               | Fn F_cdr \<Rightarrow> cdr a b s
                               | Fn F_cons \<Rightarrow> cons a b s
                               | Fn F_set \<Rightarrow> set_lisp n a b s
                               | Fn F_equal \<Rightarrow> equal_lisp a b s
                               | _ \<Rightarrow> Undefined))))))
                      else if cell_type cf = CELL_SFUNC then
                        (case cell_car cf of
                           Fn F_quote \<Rightarrow> quote (cell_cdr ce') (unprotect s)
                         | Fn F_lambda \<Rightarrow> lambda n (cell_cdr ce') (unprotect s)
                         | Fn F_lisp_if \<Rightarrow> lisp_if n (cell_cdr ce') (unprotect s)
                         | _ \<Rightarrow> Undefined)
                      else if cell_type cf = CELL_LAMBDA then
                        eval_lambda n expr func (unprotect s)
                      else Done expr s
                  | _ \<Rightarrow> Undefined)
            else Done expr s0)"
| "eval_lambda 0 expr func s0 = OutOfFuel"
| "eval_lambda (Suc n) expr func s0 =
     (case (deref func s0, deref expr s0) of
        (Some cf, Some ce) \<Rightarrow>
          bnd (bind_args n (cell_car cf) (cell_cdr ce) (nil_cell s0) 0 NULL
                 (protect func (protect expr s0))) (\<lambda>(blist, count, cell) s.
          bnd (push_bindings n blist (protect blist s)) (\<lambda>_ s.
          bnd (if 0 \<le> count \<and> cell \<noteq> error_cell s
               then (case deref func s of
                       None \<Rightarrow> Undefined
                     | Some cf' \<Rightarrow>
                         bnd (eval_lisp n (cell_cdr cf') s) (\<lambda>r s. Done (r, count) s))
               else Done (cell, count * - 1) s) (\<lambda>(cell, count) s.
          bnd (pop_bindings (nat count) s) (\<lambda>_ s.
            Done cell (unprotect (unprotect (unprotect s)))))))
      | _ \<Rightarrow> Undefined)"
| "bind_args 0 argn argv blist count cell s0 = OutOfFuel"
| "bind_args (Suc n) argn argv blist count cell s0 =
     (if argn \<noteq> NULL \<and> argn \<noteq> nil_cell s0 then
        bnd (if argv = NULL then Done (nil_cell s0) (protect blist s0)
             else bnd (car argv NULL (protect blist s0)) (\<lambda>x s. eval_lisp n x s)) (\<lambda>cell s.
          if argv \<noteq> NULL \<and> cell = error_cell s then Done (blist, count * - 1, cell) (unprotect s)
          else
            bnd (new_cell CELL_LIST (protect cell s)) (\<lambda>bind s.
            case deref argn s of
              None \<Rightarrow> Undefined
            | Some cn \<Rightarrow>
            bnd (cell_car_assign bind (cell_car cn) (unprotect (unprotect s))) (\<lambda>_ s.
            bnd (cell_cdr_assign bind cell s) (\<lambda>_ s.
            bnd (cons bind blist s) (\<lambda>blist s.
              case deref argn s of
                None \<Rightarrow> Undefined
              | Some cn' \<Rightarrow>
                  if argv \<noteq> NULL then
                    (case deref argv s of
                       None \<Rightarrow> Undefined
                     | Some cv \<Rightarrow>
                         bind_args n (cell_cdr cn') (cell_cdr cv) blist (count + 1) cell s)
                  else bind_args n (cell_cdr cn') argv blist (count + 1) cell s)))))
      else Done (blist, count, cell) s0)"
| "lisp_if 0 expr s0 = OutOfFuel"
| "lisp_if (Suc n) expr s0 =
     bnd (car expr NULL s0) (\<lambda>bool_expr s.
     bnd (cdr expr NULL s) (\<lambda>d1 s.
     bnd (car d1 NULL s) (\<lambda>then_expr s.
     bnd (cdr expr NULL s) (\<lambda>d2 s.
     bnd (cdr d2 NULL s) (\<lambda>d3 s.
     bnd (car d3 NULL s) (\<lambda>else_expr s.
       if bool_expr = error_cell s \<or> then_expr = error_cell s \<or> else_expr = error_cell s
       then Done (error_cell s) s
       else
         bnd (eval_lisp n bool_expr (protect expr s)) (\<lambda>bool_rslt s1.
           let s = unprotect s1 in
           if bool_rslt \<noteq> nil_cell s then eval_lisp n then_expr s
           else eval_lisp n else_expr s)))))))"

  by pat_completeness auto

termination
  by (relation "measure (\<lambda>x. case x of
          Inl (Inl (n, _)) \<Rightarrow> n | Inl (Inr (n, _)) \<Rightarrow> n
        | Inr (Inl (n, _)) \<Rightarrow> n | Inr (Inr (n, _)) \<Rightarrow> n)") simp_all

declare eval_lisp.simps [simp del] eval_lambda.simps [simp del]
  bind_args.simps [simp del] lisp_if.simps [simp del]

section \<open>The scanner (src/psplot.c, lines 306 to 405)\<close>

text \<open>
  \<^verbatim>\<open>fgets(buffer, n, fp)\<close> reads at most \<open>n - 1\<close> characters and stops after a newline;
  it returns null when the stream is at its end and nothing was read. \<open>fgets n f\<close>
  returns the characters read and the rest of the stream. \<open>cstring\<close> is what C sees of
  a buffer: the characters before the first zero byte. \<open>peekc p\<close> is \<^verbatim>\<open>*p\<close>, the zero
  byte at the end of the string, and \<open>strchr cs c\<close> says that \<^verbatim>\<open>strchr(cs, c)\<close> is not
  null (it finds the terminating zero byte too).
\<close>

definition MAXSCANLINELEN :: nat where
  "MAXSCANLINELEN = 256"

fun fgets_chars :: "nat \<Rightarrow> string \<Rightarrow> string" where
  "fgets_chars 0 f = []"
| "fgets_chars (Suc k) [] = []"
| "fgets_chars (Suc k) (c # f) = (if c = CHR 0x0A then [c] else c # fgets_chars k f)"

definition fgets :: "nat \<Rightarrow> string \<Rightarrow> (string \<times> string) option" where
  "fgets n f = (let l = fgets_chars (n - 1) f in
                if l = [] then None else Some (l, drop (length l) f))"

definition cstring :: "string \<Rightarrow> string" where
  "cstring l = takeWhile (\<lambda>c. c \<noteq> CHR 0x00) l"

definition peekc :: "string \<Rightarrow> char" where
  "peekc p = (case p of [] \<Rightarrow> CHR 0x00 | c # _ \<Rightarrow> c)"

definition strchr :: "string \<Rightarrow> char \<Rightarrow> bool" where
  "strchr cs c = (c = CHR 0x00 \<or> c \<in> set cs)"

definition scan_init :: "string \<Rightarrow> string \<Rightarrow> string \<Rightarrow> string \<Rightarrow> SCANNER" where
  "scan_init f delimiters whites comments =
     \<lparr>scan_fp = f, scan_delims = delimiters, scan_whites = whites, scan_comments = comments,
      scan_ptr = None\<rparr>"

definition scan_flush :: "SCANNER \<Rightarrow> SCANNER" where
  "scan_flush s = s\<lparr>scan_ptr := None\<rparr>"

text \<open>
  \<open>end_of_line\<close>: the pointer is at a comment character, at a newline or at the end of
  the buffer. \<open>need_line\<close> is the condition under which \<^verbatim>\<open>scan_get_or_peek\<close> reads a
  new line. \<open>in_token\<close> is the condition of the loop that runs over a token.
\<close>

definition end_of_line :: "SCANNER \<Rightarrow> string \<Rightarrow> bool" where
  "end_of_line s p = (strchr (scan_comments s) (peekc p) \<or> peekc p = CHR 0x0A \<or> peekc p = CHR 0x00)"

definition need_line :: "SCANNER \<Rightarrow> bool" where
  "need_line s = (case scan_ptr s of None \<Rightarrow> True | Some p \<Rightarrow> end_of_line s p)"

definition in_token :: "SCANNER \<Rightarrow> char \<Rightarrow> bool" where
  "in_token s c = (c \<noteq> CHR 0x00 \<and> c \<noteq> CHR 0x0A \<and> \<not> strchr (scan_delims s) c \<and>
                   \<not> strchr (scan_whites s) c \<and> \<not> strchr (scan_comments s) c)"

text \<open>
  \<^verbatim>\<open>scan_get_or_peek\<close>. Every \<^verbatim>\<open>continue\<close> of the C loop is a recursive call. The result
  is the token (the empty string at the end of the input) and the scanner as the call
  leaves it: a peek, too, reads lines and skips white space, and restores the pointer
  only to the start of the token. Where white space is skipped the pointer is not null
  (the test before it has read a line otherwise), so the case \<open>None\<close> there is never
  taken. The input is taken to be free of read errors.
\<close>

function scan_get_or_peek :: "SCANNER \<Rightarrow> bool \<Rightarrow> string \<times> SCANNER" where
  "scan_get_or_peek s get_flag =
     (if need_line s then
        (case fgets MAXSCANLINELEN (scan_fp s) of
           None \<Rightarrow> ([], s\<lparr>scan_ptr := None\<rparr>)
         | Some (l, f) \<Rightarrow>
             scan_get_or_peek (s\<lparr>scan_fp := f, scan_ptr := Some (cstring l)\<rparr>) get_flag)
      else
        (case scan_ptr s of
           None \<Rightarrow> ([], s)
         | Some p0 \<Rightarrow>
             let p = dropWhile (strchr (scan_whites s)) p0 in
             if end_of_line s p then scan_get_or_peek (s\<lparr>scan_ptr := Some p\<rparr>) get_flag
             else if strchr (scan_delims s) (peekc p) then
               ([peekc p], if get_flag then s\<lparr>scan_ptr := Some (tl p)\<rparr>
                           else s\<lparr>scan_ptr := Some p\<rparr>)
             else
               let tok = takeWhile (in_token s) p in
               (tok, if get_flag then s\<lparr>scan_ptr := Some (drop (length tok) p)\<rparr>
                     else s\<lparr>scan_ptr := Some p\<rparr>)))"
  by pat_completeness auto

lemma fgets_chars_Nil: "fgets_chars k [] = []"
  by (cases k) simp_all

lemma fgets_shorter: "fgets n f = Some (l, f') \<Longrightarrow> length f' < length f"
  by (cases f) (auto simp: fgets_def Let_def fgets_chars_Nil split: if_splits)

termination scan_get_or_peek
proof (relation "measure (\<lambda>(s, g). 2 * length (scan_fp s) + (if need_line s then 0 else 1))")
  show "wf (measure (\<lambda>(s, g). 2 * length (scan_fp s) + (if need_line s then 0 else 1)))"
    by simp
next
  fix s :: SCANNER and get_flag :: bool and x2 x y
  assume "need_line s" "fgets MAXSCANLINELEN (scan_fp s) = Some x2" "(x, y) = x2"
  then have "length y < length (scan_fp s)" using fgets_shorter [of MAXSCANLINELEN "scan_fp s" x y] by simp
  then show "((s\<lparr>scan_fp := y, scan_ptr := Some (cstring x)\<rparr>, get_flag), s, get_flag)
             \<in> measure (\<lambda>(s, g). 2 * length (scan_fp s) + (if need_line s then 0 else 1))"
    using \<open>need_line s\<close> by simp
next
  fix s :: SCANNER and get_flag :: bool and x2 xa
  assume "\<not> need_line s" "xa = dropWhile (strchr (scan_whites s)) x2" "end_of_line s xa"
  then show "((s\<lparr>scan_ptr := Some xa\<rparr>, get_flag), s, get_flag)
             \<in> measure (\<lambda>(s, g). 2 * length (scan_fp s) + (if need_line s then 0 else 1))"
    by (simp add: need_line_def end_of_line_def)
qed

declare scan_get_or_peek.simps [simp del]

definition scan_get :: "SCANNER \<Rightarrow> string \<times> SCANNER" where
  "scan_get s = scan_get_or_peek s True"

definition scan_peek :: "SCANNER \<Rightarrow> string \<times> SCANNER" where
  "scan_peek s = scan_get_or_peek s False"

section \<open>Start-up\<close>

text \<open>
  \<^verbatim>\<open>initialize\<close> interns the three distinguished atoms and binds the eight primitives.
  In a call \<^verbatim>\<open>set(new_atom(...), c = new_cell(...))\<close> C leaves the order of the two
  allocations open; the model interns the atom first. Its last statement sets up the
  scanner on the standard input, with the delimiters \<^verbatim>\<open>()'\<close>, blank and tab as white
  space and \<^verbatim>\<open>;\<close> as the comment character.
\<close>

definition bind_prim :: "nat \<Rightarrow> ptr \<Rightarrow> CELL_TYPE \<Rightarrow> prim \<Rightarrow> state \<Rightarrow> unit outcome" where
  "bind_prim n a t f s =
     bnd (new_cell t s) (\<lambda>c s.
     bnd (set_lisp n a c s) (\<lambda>_ s.
     cell_car_assign c (Fn f) s))"

definition initialize :: "nat \<Rightarrow> state \<Rightarrow> unit outcome" where
  "initialize n s0 =
     bnd (new_atom n ''nil'' (s0\<lparr>binding_list := NULL\<rparr>)) (\<lambda>a s.
     bnd (set_lisp n a a (s\<lparr>nil_cell := a\<rparr>)) (\<lambda>_ s.
     bnd (new_atom n ''t'' s) (\<lambda>a s.
     bnd (set_lisp n a a (s\<lparr>true_cell := a\<rparr>)) (\<lambda>_ s.
     bnd (new_atom n ''<error>'' s) (\<lambda>a s.
     bnd (set_lisp n a a (s\<lparr>error_cell := a\<rparr>)) (\<lambda>_ s.
     bnd (new_atom n ''car'' s) (\<lambda>a s.
     bnd (bind_prim n a CELL_VFUNC F_car s) (\<lambda>_ s.
     bnd (new_atom n ''cdr'' s) (\<lambda>a s.
     bnd (bind_prim n a CELL_VFUNC F_cdr s) (\<lambda>_ s.
     bnd (new_atom n ''cons'' s) (\<lambda>a s.
     bnd (bind_prim n a CELL_VFUNC F_cons s) (\<lambda>_ s.
     bnd (new_atom n ''set'' s) (\<lambda>a s.
     bnd (bind_prim n a CELL_VFUNC F_set s) (\<lambda>_ s.
     bnd (new_atom n ''equal'' s) (\<lambda>a s.
     bnd (bind_prim n a CELL_VFUNC F_equal s) (\<lambda>_ s.
     bnd (new_atom n ''quote'' s) (\<lambda>a s.
     bnd (bind_prim n a CELL_SFUNC F_quote (s\<lparr>quote_cell := a\<rparr>)) (\<lambda>_ s.
     bnd (new_atom n ''lambda'' s) (\<lambda>a s.
     bnd (bind_prim n a CELL_SFUNC F_lambda s) (\<lambda>_ s.
     bnd (new_atom n ''if'' s) (\<lambda>a s.
     bnd (bind_prim n a CELL_SFUNC F_lisp_if s) (\<lambda>_ s.
       Done () (s\<lparr>scan := Some (scan_init (stdin s) (''()'' @ [CHR 0x27])
                                   [CHR '' '', CHR 0x09] '';'')\<rparr>)))))))))))))))))))))))"

section \<open>The parser\<close>

text \<open>
  \<^verbatim>\<open>parse\<close> and \<^verbatim>\<open>parse_list\<close> test the first character of the token; \<open>starts\<close> is
  that test. The global \<^verbatim>\<open>scan\<close> is dereferenced by every call of the scanner.
\<close>

definition starts :: "string \<Rightarrow> char \<Rightarrow> bool" where
  "starts token c = (case token of [] \<Rightarrow> False | x # _ \<Rightarrow> x = c)"

function (sequential) parse :: "nat \<Rightarrow> state \<Rightarrow> ptr outcome"
  and parse_list :: "nat \<Rightarrow> state \<Rightarrow> ptr outcome"
where
  "parse 0 s0 = OutOfFuel"
| "parse (Suc n) s0 =
     (case scan s0 of
        None \<Rightarrow> Undefined
      | Some sc \<Rightarrow>
     (case scan_get sc of (token, sc') \<Rightarrow>
        let s = s0\<lparr>scan := Some sc'\<rparr> in
        if starts token (CHR ''('') then parse_list n s
        else if starts token (CHR 0x27) then
          bnd (parse n s) (\<lambda>expr s.
            if expr \<noteq> error_cell s
            then bnd (cons expr (nil_cell s) s) (\<lambda>l s. cons (quote_cell s) l s)
            else Done (error_cell s) s)
        else if starts token (CHR '')'') then
          Done (error_cell s)
            ((printf (''parse error: unexpected '' @ [CHR 0x27] @ '')'' @ [CHR 0x27, CHR 0x0A]) s)
               \<lparr>scan := Some (scan_flush sc')\<rparr>)
        else if token = [] then Done NULL s
        else new_atom n token s))"
| "parse_list 0 s = OutOfFuel"
| "parse_list (Suc n) s =
     (case scan s of
        None \<Rightarrow> Undefined
      | Some sc \<Rightarrow>
     (case scan_peek sc of (token, sc') \<Rightarrow>
      let s0 = s\<lparr>scan := Some sc'\<rparr> in
      if starts token (CHR '')'') then Done (nil_cell s0) (s0\<lparr>scan := Some (snd (scan_get sc'))\<rparr>)
      else if token = []
      then Done (error_cell s0) (printf (''parse error: unexpected EOF.'' @ [CHR 0x0A]) s0)
      else
        bnd (parse n s0) (\<lambda>expr s.
          if expr = error_cell s then Done (error_cell s) s
          else
            bnd (parse_list n (protect expr s)) (\<lambda>list s.
              if list = error_cell s then Done (error_cell s) (unprotect s)
              else cons expr list (unprotect s)))))"
  by pat_completeness auto

termination
  by (relation "measure (\<lambda>x. case x of Inl (n, _) \<Rightarrow> n | Inr (n, _) \<Rightarrow> n)") simp_all

declare parse.simps [simp del] parse_list.simps [simp del]

section \<open>Vocabulary of the properties\<close>

inductive reach :: "CELL list \<Rightarrow> ptr \<Rightarrow> nat \<Rightarrow> bool" for h :: "CELL list" and p :: ptr where
  reach_root: "p = Cell i \<Longrightarrow> i < length h \<Longrightarrow> reach h p i"
| reach_car: "reach h p i \<Longrightarrow> cell_type (h ! i) = CELL_LAMBDA \<or> cell_type (h ! i) = CELL_LIST \<Longrightarrow>
              cell_car (h ! i) = Cell j \<Longrightarrow> j < length h \<Longrightarrow> reach h p j"
| reach_cdr: "reach h p i \<Longrightarrow> cell_type (h ! i) = CELL_LAMBDA \<or> cell_type (h ! i) = CELL_LIST \<Longrightarrow>
              cell_cdr (h ! i) = Cell j \<Longrightarrow> j < length h \<Longrightarrow> reach h p j"

definition roots :: "state \<Rightarrow> ptr list" where
  "roots s = binding_list s # protect_table s"

definition live :: "state \<Rightarrow> nat \<Rightarrow> bool" where
  "live s i = (\<exists>p \<in> set (roots s). reach (heap s) p i)"

definition clear :: "CELL list \<Rightarrow> bool" where
  "clear h = (\<forall>c \<in> set h. \<not> cell_mark c)"

fun chain :: "CELL list \<Rightarrow> ptr \<Rightarrow> nat list \<Rightarrow> ptr \<Rightarrow> bool" where
  "chain h p [] q = (p = q)"
| "chain h p (i # xs) q = (p = Cell i \<and> i < length h \<and> chain h (cell_car (h ! i)) xs q)"

definition same_fields :: "CELL \<Rightarrow> CELL \<Rightarrow> bool" where
  "same_fields c d = (cell_car c = cell_car d \<and> cell_cdr c = cell_cdr d \<and> cell_type c = cell_type d)"

definition mark_ext :: "CELL list \<Rightarrow> CELL list \<Rightarrow> bool" where
  "mark_ext h h' = (length h' = length h \<and>
     (\<forall>k<length h. same_fields (h' ! k) (h ! k) \<and> (cell_mark (h ! k) \<longrightarrow> cell_mark (h' ! k))))"

definition children_marked :: "CELL list \<Rightarrow> CELL list \<Rightarrow> bool" where
  "children_marked h h' =
     (\<forall>k<length h. cell_mark (h' ! k) \<and> \<not> cell_mark (h ! k) \<longrightarrow>
        cell_type (h ! k) = CELL_LAMBDA \<or> cell_type (h ! k) = CELL_LIST \<longrightarrow>
        (\<forall>j<length h. cell_car (h ! k) = Cell j \<or> cell_cdr (h ! k) = Cell j \<longrightarrow> cell_mark (h' ! j)))"

definition marks :: "CELL list \<Rightarrow> ptr list \<Rightarrow> CELL list" where
  "marks h ps = foldl (\<lambda>h p. mark p h) h ps"

definition free_indices :: "CELL list \<Rightarrow> nat \<Rightarrow> nat list" where
  "free_indices h n = filter (\<lambda>k. \<not> cell_mark (h ! k)) [0..<n]"

definition swept :: "CELL list \<Rightarrow> ptr \<Rightarrow> nat \<Rightarrow> CELL list \<times> ptr \<times> nat \<Rightarrow> bool" where
  "swept h fl n r = (case r of (h', fl', c) \<Rightarrow>
     length h' = length h \<and>
     (\<forall>k<length h. if k < n
        then \<not> cell_mark (h' ! k) \<and> cell_type (h' ! k) = cell_type (h ! k) \<and>
             cell_cdr (h' ! k) = cell_cdr (h ! k) \<and>
             (cell_mark (h ! k) \<longrightarrow> cell_car (h' ! k) = cell_car (h ! k))
        else h' ! k = h ! k) \<and>
     chain h' fl' (rev (free_indices h n)) fl \<and>
     c = length (free_indices h n))"

definition ex_gc :: state where
  "ex_gc = \<lparr>heap = [\<lparr>cell_car = Cell 1, cell_cdr = NULL, cell_type = CELL_LIST, cell_mark = False\<rparr>,
                     \<lparr>cell_car = Cell 2, cell_cdr = Cell 2, cell_type = CELL_LIST, cell_mark = False\<rparr>,
                     \<lparr>cell_car = Str ''nil'', cell_cdr = NULL, cell_type = CELL_ATOM, cell_mark = False\<rparr>,
                     \<lparr>cell_car = Cell 2, cell_cdr = Cell 4, cell_type = CELL_LIST, cell_mark = False\<rparr>,
                     \<lparr>cell_car = Cell 5, cell_cdr = NULL, cell_type = CELL_LIST, cell_mark = False\<rparr>,
                     \<lparr>cell_car = Str ''x'', cell_cdr = NULL, cell_type = CELL_ATOM, cell_mark = False\<rparr>],
            free_list = NULL, binding_list = Cell 0, protect_table = [Cell 5],
            nil_cell = Cell 2, quote_cell = NULL, error_cell = NULL, true_cell = NULL,
            init = True, stdin = [], scan = None, out = [], err = []\<rparr>"

text \<open>
  The state of the process before \<^verbatim>\<open>initialize\<close>: all globals are null, \<open>n\<close> is the
  heap size, \<open>inp\<close> the input. The memory that the heap will occupy is taken to be zero.
  \<open>read_eval\<close> is one round of the loop of \<^verbatim>\<open>main\<close> without the printing.
\<close>

definition blank :: CELL where
  "blank = \<lparr>cell_car = NULL, cell_cdr = NULL, cell_type = CELL_LAMBDA, cell_mark = False\<rparr>"

definition start :: "nat \<Rightarrow> string \<Rightarrow> state" where
  "start n inp = \<lparr>heap = replicate n blank, free_list = NULL, binding_list = NULL,
     protect_table = [], nil_cell = NULL, quote_cell = NULL, error_cell = NULL,
     true_cell = NULL, init = False, stdin = inp, scan = None, out = [], err = []\<rparr>"

definition read_eval :: "nat \<Rightarrow> state \<Rightarrow> ptr outcome" where
  "read_eval n s = bnd (parse n s) (\<lambda>expr s. eval_lisp n expr s)"

definition low_memory_input :: string where
  "low_memory_input = ''(quote t)'' @ [CHR 0x0A]"

text \<open>
  The invariant of the allocator. \<open>weak_inv s xs\<close>: the heap has been set up, the free
  list runs through the cells \<open>xs\<close> to the null pointer without repetition, and every cell
  off the free list has a clear mark (a cell that was never allocated may still carry
  whatever mark the uninitialised memory had). \<open>alloc_inv\<close> adds that no free cell
  is reachable from the roots. \<open>fresh t\<close> is a cell as \<^verbatim>\<open>new_cell\<close> hands it out.
\<close>

definition weak_inv :: "state \<Rightarrow> nat list \<Rightarrow> bool" where
  "weak_inv s xs = (init s \<and> chain (heap s) (free_list s) xs NULL \<and> distinct xs \<and>
     (\<forall>i \<in> set [0..<length (heap s)]. i \<notin> set xs \<longrightarrow> \<not> cell_mark (heap s ! i)))"

definition alloc_inv :: "state \<Rightarrow> nat list \<Rightarrow> bool" where
  "alloc_inv s xs = (weak_inv s xs \<and> (\<forall>i \<in> set xs. \<not> live s i))"

definition fresh :: "CELL_TYPE \<Rightarrow> CELL" where
  "fresh t = \<lparr>cell_car = NULL, cell_cdr = NULL, cell_type = t, cell_mark = False\<rparr>"

text \<open>
  \<open>same_globals\<close>: the globals other than the heap, the free list and stderr agree, and
  the heap has kept its size.
\<close>

definition same_globals :: "state \<Rightarrow> state \<Rightarrow> bool" where
  "same_globals s s' = (binding_list s' = binding_list s \<and> protect_table s' = protect_table s \<and>
     nil_cell s' = nil_cell s \<and> quote_cell s' = quote_cell s \<and> error_cell s' = error_cell s \<and>
     true_cell s' = true_cell s \<and> init s' = init s \<and> scan s' = scan s \<and> out s' = out s \<and>
     length (heap s') = length (heap s))"

section \<open>The collector: proofs\<close>

lemma same_fields_refl [simp]: "same_fields c c" by (simp add: same_fields_def)

lemma same_fields_mark [simp]: "same_fields (c\<lparr>cell_mark := b\<rparr>) d = same_fields c d"
  "same_fields c (d\<lparr>cell_mark := b\<rparr>) = same_fields c d"
  by (simp_all add: same_fields_def)

lemma same_fields_trans: "same_fields a b \<Longrightarrow> same_fields b c \<Longrightarrow> same_fields a c"
  by (simp add: same_fields_def)

lemma mark_ext_refl [simp]: "mark_ext h h" by (simp add: mark_ext_def)

lemma mark_ext_trans: "mark_ext a b \<Longrightarrow> mark_ext b c \<Longrightarrow> mark_ext a c"
  by (auto simp: mark_ext_def intro: same_fields_trans)

lemma mark_ext_set: "i < length h \<Longrightarrow> mark_ext h (h[i := (h ! i)\<lparr>cell_mark := True\<rparr>])"
  by (auto simp: mark_ext_def nth_list_update)

lemma mark_skip:
  "(\<forall>i. p = Cell i \<longrightarrow> \<not> i < length h \<or> cell_mark (h ! i)) \<Longrightarrow> mark p h = h"
  by (cases p) (auto simp: mark.simps [of _ h])

lemma mark_leaf:
  "i < length h \<Longrightarrow> \<not> cell_mark (h ! i) \<Longrightarrow>
   \<not> (cell_type (h ! i) = CELL_LAMBDA \<or> cell_type (h ! i) = CELL_LIST) \<Longrightarrow>
   mark (Cell i) h = h[i := (h ! i)\<lparr>cell_mark := True\<rparr>]"
  by (simp add: mark.simps [of _ h])

lemma mark_node:
  "i < length h \<Longrightarrow> \<not> cell_mark (h ! i) \<Longrightarrow>
   cell_type (h ! i) = CELL_LAMBDA \<or> cell_type (h ! i) = CELL_LIST \<Longrightarrow>
   mark (Cell i) h =
     mark (cell_cdr (mark (cell_car (h ! i)) (h[i := (h ! i)\<lparr>cell_mark := True\<rparr>]) ! i))
       (mark (cell_car (h ! i)) (h[i := (h ! i)\<lparr>cell_mark := True\<rparr>]))"
  by (simp add: mark.simps [of _ h] Let_def)

lemma mark_rel_induct [consumes 0, case_names skip leaf node]:
  assumes skip: "\<And>p h. (\<forall>i. p = Cell i \<longrightarrow> \<not> i < length h \<or> cell_mark (h ! i)) \<Longrightarrow> Q p h h"
    and leaf: "\<And>i h. i < length h \<Longrightarrow> \<not> cell_mark (h ! i) \<Longrightarrow>
        \<not> (cell_type (h ! i) = CELL_LAMBDA \<or> cell_type (h ! i) = CELL_LIST) \<Longrightarrow>
        Q (Cell i) h (h[i := (h ! i)\<lparr>cell_mark := True\<rparr>])"
    and node: "\<And>i h h1 h2 h3. i < length h \<Longrightarrow> \<not> cell_mark (h ! i) \<Longrightarrow>
        cell_type (h ! i) = CELL_LAMBDA \<or> cell_type (h ! i) = CELL_LIST \<Longrightarrow>
        h1 = h[i := (h ! i)\<lparr>cell_mark := True\<rparr>] \<Longrightarrow>
        h2 = mark (cell_car (h ! i)) h1 \<Longrightarrow> h3 = mark (cell_cdr (h2 ! i)) h2 \<Longrightarrow>
        Q (cell_car (h ! i)) h1 h2 \<Longrightarrow> Q (cell_cdr (h2 ! i)) h2 h3 \<Longrightarrow> Q (Cell i) h h3"
  shows "Q p h (mark p h)"
proof (induction p h rule: mark.induct)
  case (1 cell h)
  show ?case
  proof (cases "\<forall>i. cell = Cell i \<longrightarrow> \<not> i < length h \<or> cell_mark (h ! i)")
    case True
    then show ?thesis using skip [of cell h] by (simp add: mark_skip)
  next
    case False
    then obtain i where c: "cell = Cell i" and i: "i < length h" and m: "\<not> cell_mark (h ! i)"
      by auto
    define h1 where "h1 = h[i := (h ! i)\<lparr>cell_mark := True\<rparr>]"
    have ty: "cell_type (h1 ! i) = cell_type (h ! i)" and ca: "cell_car (h1 ! i) = cell_car (h ! i)"
      using i by (simp_all add: h1_def)
    show ?thesis
    proof (cases "cell_type (h ! i) = CELL_LAMBDA \<or> cell_type (h ! i) = CELL_LIST")
      case False
      then show ?thesis using leaf [OF i m] i m c by (simp add: mark_leaf)
    next
      case rec: True
      define h2 where "h2 = mark (cell_car (h ! i)) h1"
      define h3 where "h3 = mark (cell_cdr (h2 ! i)) h2"
      have rec1: "cell_type (h1 ! i) = CELL_LAMBDA \<or> cell_type (h1 ! i) = CELL_LIST"
        using rec ty by simp
      have q1: "Q (cell_car (h ! i)) h1 h2"
        using 1(1) [OF c i m h1_def rec1] by (simp add: h2_def ca)
      have q2: "Q (cell_cdr (h2 ! i)) h2 h3"
        using 1(2) [OF c i m h1_def rec1] by (simp add: h2_def h3_def ca)
      have "mark cell h = h3"
        using i m rec c by (simp add: mark_node h1_def h2_def h3_def)
      then show ?thesis using node [OF i m rec h1_def h2_def h3_def q1 q2] c by simp
    qed
  qed
qed

lemma mark_ext_mark: "mark_ext h (mark p h)"
proof (induction rule: mark_rel_induct)
  case (skip p h)
  show ?case by simp
next
  case (leaf i h)
  then show ?case by (simp add: mark_ext_set)
next
  case (node i h h1 h2 h3)
  then show ?case using mark_ext_set [of i h] by (metis mark_ext_trans)
qed

lemma mark_length [simp]: "length (mark p h) = length h"
  using mark_ext_mark [of h p] by (simp add: mark_ext_def)

lemma children_markedD:
  "children_marked h h' \<Longrightarrow> k < length h \<Longrightarrow> cell_mark (h' ! k) \<Longrightarrow> \<not> cell_mark (h ! k) \<Longrightarrow>
   cell_type (h ! k) = CELL_LAMBDA \<or> cell_type (h ! k) = CELL_LIST \<Longrightarrow> j < length h \<Longrightarrow>
   cell_car (h ! k) = Cell j \<or> cell_cdr (h ! k) = Cell j \<Longrightarrow> cell_mark (h' ! j)"
  unfolding children_marked_def by blast

lemma mark_root_marked: "i < length h \<Longrightarrow> cell_mark (mark (Cell i) h ! i)"
proof (cases "cell_mark (h ! i)")
  case True
  assume "i < length h"
  with True show ?thesis using mark_ext_mark [of h "Cell i"] by (simp add: mark_ext_def)
next
  case False
  assume i: "i < length h"
  define h1 where "h1 = h[i := (h ! i)\<lparr>cell_mark := True\<rparr>]"
  have m1: "cell_mark (h1 ! i)" using i by (simp add: h1_def)
  show ?thesis
  proof (cases "cell_type (h ! i) = CELL_LAMBDA \<or> cell_type (h ! i) = CELL_LIST")
    case False
    with i \<open>\<not> cell_mark (h ! i)\<close> show ?thesis by (simp add: mark_leaf)
  next
    case True
    define h2 where "h2 = mark (cell_car (h ! i)) h1"
    have "mark_ext h1 h2" by (simp add: h2_def mark_ext_mark)
    moreover have "mark_ext h2 (mark (cell_cdr (h2 ! i)) h2)" by (simp add: mark_ext_mark)
    ultimately have "mark_ext h1 (mark (cell_cdr (h2 ! i)) h2)" by (rule mark_ext_trans)
    then have "cell_mark (mark (cell_cdr (h2 ! i)) h2 ! i)"
      using m1 i by (simp add: mark_ext_def h1_def)
    then show ?thesis using i \<open>\<not> cell_mark (h ! i)\<close> True
      by (simp add: mark_node h1_def h2_def)
  qed
qed

lemma children_marked_mark: "children_marked h (mark p h)"
proof (induction rule: mark_rel_induct)
  case (skip p h)
  show ?case by (simp add: children_marked_def)
next
  case (leaf i h)
  then show ?case by (auto simp: children_marked_def nth_list_update split: if_splits)
next
  case (node i h h1 h2 h3)
  have e12: "mark_ext h1 h2" and e23: "mark_ext h2 h3"
    using node by (simp_all add: mark_ext_mark)
  have len: "length h1 = length h" "length h2 = length h" "length h3 = length h"
    using node by simp_all
  have f1: "\<And>k. k < length h \<Longrightarrow> same_fields (h1 ! k) (h ! k)"
    using node(1,4) by (auto simp: nth_list_update)
  have f2: "\<And>k. k < length h \<Longrightarrow> same_fields (h2 ! k) (h ! k)"
    using e12 f1 len by (metis mark_ext_def same_fields_trans)
  have m23: "\<And>k. k < length h \<Longrightarrow> cell_mark (h2 ! k) \<Longrightarrow> cell_mark (h3 ! k)"
    using e23 len by (simp add: mark_ext_def)
  show ?case unfolding children_marked_def
  proof (intro allI impI)
    fix k j
    assume k: "k < length h" and km: "cell_mark (h3 ! k) \<and> \<not> cell_mark (h ! k)"
      and kt: "cell_type (h ! k) = CELL_LAMBDA \<or> cell_type (h ! k) = CELL_LIST"
      and j: "j < length h" and kj: "cell_car (h ! k) = Cell j \<or> cell_cdr (h ! k) = Cell j"
    show "cell_mark (h3 ! j)"
    proof (cases "k = i")
      case True
      have cdr2: "cell_cdr (h2 ! i) = cell_cdr (h ! i)"
        using f2 [OF node(1)] by (simp add: same_fields_def)
      from kj show ?thesis
      proof
        assume "cell_car (h ! k) = Cell j"
        then have "cell_mark (h2 ! j)"
          using True node(5) j len mark_root_marked [of j h1] by simp
        then show ?thesis using m23 j by simp
      next
        assume "cell_cdr (h ! k) = Cell j"
        then show ?thesis
          using True cdr2 node(6) j len mark_root_marked [of j h2] by simp
      qed
    next
      case False
      then have k1: "\<not> cell_mark (h1 ! k)" using km k node(4) by simp
      have t1: "cell_type (h1 ! k) = CELL_LAMBDA \<or> cell_type (h1 ! k) = CELL_LIST"
        and c1: "cell_car (h1 ! k) = Cell j \<or> cell_cdr (h1 ! k) = Cell j"
        using kt kj f1 [OF k] by (simp_all add: same_fields_def)
      have t2: "cell_type (h2 ! k) = CELL_LAMBDA \<or> cell_type (h2 ! k) = CELL_LIST"
        and c2: "cell_car (h2 ! k) = Cell j \<or> cell_cdr (h2 ! k) = Cell j"
        using kt kj f2 [OF k] by (simp_all add: same_fields_def)
      show ?thesis
      proof (cases "cell_mark (h2 ! k)")
        case True
        have "cell_mark (h2 ! j)"
          using children_markedD [OF node(7) _ True k1 t1 _ c1] k j len by simp
        then show ?thesis using m23 j by simp
      next
        case False
        show ?thesis
          using children_markedD [OF node(8) _ _ False t2 _ c2] k j len km by simp
      qed
    qed
  qed
qed

lemma reach_lt: "reach h p k \<Longrightarrow> k < length h"
  by (induction rule: reach.induct) simp_all

lemma reach_trans: "reach h (Cell j) k \<Longrightarrow> reach h p j \<Longrightarrow> reach h p k"
proof (induction rule: reach.induct)
  case (reach_root i)
  then show ?case by simp
next
  case (reach_car a b)
  then show ?case using reach.reach_car [of h p a b] by simp
next
  case (reach_cdr a b)
  then show ?case using reach.reach_cdr [of h p a b] by simp
qed

lemma reach_same_fields:
  assumes "length h' = length h" and "\<And>k. k < length h \<Longrightarrow> same_fields (h' ! k) (h ! k)"
  shows "reach h' p k \<Longrightarrow> reach h p k"
proof (induction rule: reach.induct)
  case (reach_root i)
  then show ?case using assms(1) by (simp add: reach.reach_root)
next
  case (reach_car a b)
  have "a < length h" using reach_car.IH by (rule reach_lt)
  then show ?case
    using reach_car assms(1) assms(2) [of a] reach.reach_car [of h p a b]
    by (simp add: same_fields_def)
next
  case (reach_cdr a b)
  have "a < length h" using reach_cdr.IH by (rule reach_lt)
  then show ?case
    using reach_cdr assms(1) assms(2) [of a] reach.reach_cdr [of h p a b]
    by (simp add: same_fields_def)
qed

lemma reach_via_car:
  assumes "i < length h" "cell_type (h ! i) = CELL_LAMBDA \<or> cell_type (h ! i) = CELL_LIST"
    and "reach h (cell_car (h ! i)) k"
  shows "reach h (Cell i) k"
proof -
  from assms(3) obtain j where j: "cell_car (h ! i) = Cell j" "j < length h"
    by (induction rule: reach.induct) auto
  have "reach h (Cell i) j"
    using reach.reach_car [OF reach_root [of "Cell i" i h] assms(2) j] assms(1) by simp
  then show ?thesis using assms(3) j(1) reach_trans by simp
qed

lemma reach_via_cdr:
  assumes "i < length h" "cell_type (h ! i) = CELL_LAMBDA \<or> cell_type (h ! i) = CELL_LIST"
    and "reach h (cell_cdr (h ! i)) k"
  shows "reach h (Cell i) k"
proof -
  from assms(3) obtain j where j: "cell_cdr (h ! i) = Cell j" "j < length h"
    by (induction rule: reach.induct) auto
  have "reach h (Cell i) j"
    using reach.reach_cdr [OF reach_root [of "Cell i" i h] assms(2) j] assms(1) by simp
  then show ?thesis using assms(3) j(1) reach_trans by simp
qed

lemma mark_sound_aux:
  "\<forall>k<length h. cell_mark (mark p h ! k) \<and> \<not> cell_mark (h ! k) \<longrightarrow> reach h p k"
proof (induction rule: mark_rel_induct)
  case (skip p h)
  show ?case by simp
next
  case (leaf i h)
  show ?case
  proof (intro allI impI)
    fix k assume "k < length h"
      and "cell_mark (h[i := (h ! i)\<lparr>cell_mark := True\<rparr>] ! k) \<and> \<not> cell_mark (h ! k)"
    then have "k = i" using leaf(1) by (cases "k = i") simp_all
    then show "reach h (Cell i) k" using leaf(1) by (simp add: reach_root)
  qed
next
  case (node i h h1 h2 h3)
  have e12: "mark_ext h1 h2" and e23: "mark_ext h2 h3"
    using node by (simp_all add: mark_ext_mark)
  have len: "length h1 = length h" "length h2 = length h" "length h3 = length h"
    using node by simp_all
  have f1: "\<And>k. k < length h \<Longrightarrow> same_fields (h1 ! k) (h ! k)"
    using node(1,4) by (auto simp: nth_list_update)
  have f2: "\<And>k. k < length h \<Longrightarrow> same_fields (h2 ! k) (h ! k)"
    using e12 f1 len by (metis mark_ext_def same_fields_trans)
  have r0: "reach h (Cell i) i" using node(1) by (simp add: reach_root)
  have lift1: "reach h (Cell i) k" if "reach h1 (cell_car (h ! i)) k" for k
    using reach_via_car [OF node(1,3)] reach_same_fields [OF len(1) f1] that by simp
  have cdr2: "cell_cdr (h2 ! i) = cell_cdr (h ! i)"
    using f2 [OF node(1)] by (simp add: same_fields_def)
  have lift2: "reach h (Cell i) k" if "reach h2 (cell_cdr (h2 ! i)) k" for k
    using reach_via_cdr [OF node(1,3)] reach_same_fields [OF len(2) f2] that cdr2 by simp
  show ?case
  proof (intro allI impI)
    fix k assume k: "k < length h" and km: "cell_mark (h3 ! k) \<and> \<not> cell_mark (h ! k)"
    show "reach h (Cell i) k"
    proof (cases "k = i")
      case True
      then show ?thesis using r0 by simp
    next
      case False
      then have k1: "\<not> cell_mark (h1 ! k)" using km k node(4) by simp
      show ?thesis
      proof (cases "cell_mark (h2 ! k)")
        case True
        then show ?thesis using node(7) k1 k len lift1 by simp
      next
        case False
        then show ?thesis using node(8) km k len lift2 by simp
      qed
    qed
  qed
qed

lemma marks_Nil [simp]: "marks h [] = h" by (simp add: marks_def)

lemma marks_Cons [simp]: "marks h (p # ps) = marks (mark p h) ps" by (simp add: marks_def)

lemma mark_roots_marks: "mark_roots s = marks (heap s) (roots s)"
  by (simp add: mark_roots_def roots_def marks_def)

lemma mark_ext_marks: "mark_ext h (marks h ps)"
proof (induction ps arbitrary: h)
  case Nil
  show ?case by simp
next
  case (Cons p ps)
  show ?case using mark_ext_mark [of h p] Cons [of "mark p h"] by (auto intro: mark_ext_trans)
qed

lemma marks_length [simp]: "length (marks h ps) = length h"
  using mark_ext_marks [of h ps] by (simp add: mark_ext_def)

lemma mark_ext_fields: "mark_ext h h' \<Longrightarrow> k < length h \<Longrightarrow> same_fields (h' ! k) (h ! k)"
  by (simp add: mark_ext_def)

lemma mark_ext_mono: "mark_ext h h' \<Longrightarrow> k < length h \<Longrightarrow> cell_mark (h ! k) \<Longrightarrow> cell_mark (h' ! k)"
  by (simp add: mark_ext_def)

lemma mark_ext_len: "mark_ext h h' \<Longrightarrow> length h' = length h"
  by (simp add: mark_ext_def)

lemma children_marked_step:
  assumes e0: "mark_ext h0 h" and c0: "children_marked h0 h"
    and e1: "mark_ext h h'" and c1: "children_marked h h'"
  shows "children_marked h0 h'"
  unfolding children_marked_def
proof (intro allI impI)
  fix k j
  assume k: "k < length h0" and km: "cell_mark (h' ! k) \<and> \<not> cell_mark (h0 ! k)"
    and kt: "cell_type (h0 ! k) = CELL_LAMBDA \<or> cell_type (h0 ! k) = CELL_LIST"
    and j: "j < length h0" and kj: "cell_car (h0 ! k) = Cell j \<or> cell_cdr (h0 ! k) = Cell j"
  have len: "length h = length h0" using e0 by (rule mark_ext_len)
  have t1: "cell_type (h ! k) = CELL_LAMBDA \<or> cell_type (h ! k) = CELL_LIST"
    and k1: "cell_car (h ! k) = Cell j \<or> cell_cdr (h ! k) = Cell j"
    using kt kj mark_ext_fields [OF e0 k] by (simp_all add: same_fields_def)
  show "cell_mark (h' ! j)"
  proof (cases "cell_mark (h ! k)")
    case True
    have "cell_mark (h ! j)"
      using children_markedD [OF c0 k True _ kt j kj] km by simp
    then show ?thesis using mark_ext_mono [OF e1, of j] j len by simp
  next
    case False
    show ?thesis
      using children_markedD [OF c1 _ _ False t1 _ k1] k j len km by simp
  qed
qed

lemma children_marked_marks: "children_marked h (marks h ps)"
proof (induction ps arbitrary: h)
  case Nil
  show ?case by (simp add: children_marked_def)
next
  case (Cons p ps)
  have "children_marked h (marks (mark p h) ps)"
    using children_marked_step [OF mark_ext_mark children_marked_mark mark_ext_marks Cons] .
  then show ?case by simp
qed

lemma marks_root_marked:
  "Cell i \<in> set ps \<Longrightarrow> i < length h \<Longrightarrow> cell_mark (marks h ps ! i)"
proof (induction ps arbitrary: h)
  case Nil
  then show ?case by simp
next
  case (Cons p ps)
  show ?case
  proof (cases "p = Cell i")
    case True
    have "cell_mark (mark p h ! i)" using True Cons.prems(2) by (simp add: mark_root_marked)
    then show ?thesis
      using mark_ext_mono [OF mark_ext_marks, of i "mark p h" ps] Cons.prems(2) by simp
  next
    case False
    then show ?thesis using Cons.IH [of "mark p h"] Cons.prems by simp
  qed
qed

lemma marks_complete:
  assumes cl: "clear h" and p: "p \<in> set ps" and r: "reach h p k"
  shows "cell_mark (marks h ps ! k)"
  using r
proof (induction rule: reach.induct)
  case (reach_root i)
  then show ?case using p marks_root_marked [of i ps h] by simp
next
  case (reach_car a b)
  have a: "a < length h" using reach_car.hyps(1) by (rule reach_lt)
  have "\<not> cell_mark (h ! a)" using cl a by (simp add: clear_def)
  then show ?case
    using children_markedD [OF children_marked_marks a reach_car.IH _ reach_car.hyps(2)
        reach_car.hyps(4)] reach_car.hyps(3) by simp
next
  case (reach_cdr a b)
  have a: "a < length h" using reach_cdr.hyps(1) by (rule reach_lt)
  have "\<not> cell_mark (h ! a)" using cl a by (simp add: clear_def)
  then show ?case
    using children_markedD [OF children_marked_marks a reach_cdr.IH _ reach_cdr.hyps(2)
        reach_cdr.hyps(4)] reach_cdr.hyps(3) by simp
qed

lemma marks_sound:
  "k < length h \<Longrightarrow> cell_mark (marks h ps ! k) \<Longrightarrow> \<not> cell_mark (h ! k) \<Longrightarrow>
   \<exists>p \<in> set ps. reach h p k"
proof (induction ps arbitrary: h)
  case Nil
  then show ?case by simp
next
  case (Cons p ps)
  show ?case
  proof (cases "cell_mark (mark p h ! k)")
    case True
    then have "reach h p k" using mark_sound_aux [of h p] Cons.prems by simp
    then show ?thesis by auto
  next
    case False
    then obtain q where q: "q \<in> set ps" "reach (mark p h) q k"
      using Cons.IH [of "mark p h"] Cons.prems by auto
    have "reach h q k"
      using reach_same_fields [OF mark_length, of h p q k] q(2)
        mark_ext_fields [OF mark_ext_mark, of _ h p] by blast
    then show ?thesis using q(1) by auto
  qed
qed

lemma chain_update:
  "n \<notin> set xs \<Longrightarrow> chain (h[n := c]) p xs q = chain h p xs q"
  by (induction xs arbitrary: p) (auto simp: nth_list_update)

lemma free_indices_Suc:
  "free_indices h (Suc n) = free_indices h n @ (if cell_mark (h ! n) then [] else [n])"
  by (simp add: free_indices_def)

lemma free_indices_lt: "k \<in> set (free_indices h n) \<Longrightarrow> k < n"
  by (simp add: free_indices_def)

lemma swept_step:
  assumes n: "n < length h" and sw: "swept h fl n r"
  shows "swept h fl (Suc n) (sweep_step r n)"
proof -
  obtain h' fl' c where r: "r = (h', fl', c)" by (cases r) auto
  have len: "length h' = length h" and hn: "h' ! n = h ! n"
    and ch: "chain h' fl' (rev (free_indices h n)) fl" and c: "c = length (free_indices h n)"
    and old: "\<And>k. k < length h \<Longrightarrow> k < n \<Longrightarrow>
        \<not> cell_mark (h' ! k) \<and> cell_type (h' ! k) = cell_type (h ! k) \<and>
        cell_cdr (h' ! k) = cell_cdr (h ! k) \<and>
        (cell_mark (h ! k) \<longrightarrow> cell_car (h' ! k) = cell_car (h ! k))"
    and new: "\<And>k. k < length h \<Longrightarrow> \<not> k < n \<Longrightarrow> h' ! k = h ! k"
    using sw n unfolding swept_def r by (simp_all split: if_splits)
  have notin: "n \<notin> set (rev (free_indices h n))" using free_indices_lt [of n h n] by auto
  show ?thesis
  proof (cases "cell_mark (h ! n)")
    case True
    have st: "sweep_step r n = (h'[n := (h' ! n)\<lparr>cell_mark := False\<rparr>], fl', c)"
      using True hn by (simp add: sweep_step_def r)
    show ?thesis unfolding st swept_def
      using len hn ch c old new n True notin
      by (auto simp: chain_update free_indices_Suc nth_list_update less_Suc_eq)
  next
    case False
    have st: "sweep_step r n =
        (h'[n := (h' ! n)\<lparr>cell_car := fl', cell_mark := False\<rparr>], Cell n, c + 1)"
      using False hn by (simp add: sweep_step_def r)
    show ?thesis unfolding st swept_def
      using len hn ch c old new n False notin
      by (auto simp: chain_update free_indices_Suc nth_list_update less_Suc_eq)
  qed
qed

lemma swept_upto: "n \<le> length h \<Longrightarrow> swept h fl n (foldl sweep_step (h, fl, 0) [0..<n])"
proof (induction n)
  case 0
  show ?case by (simp add: swept_def free_indices_def)
next
  case (Suc n)
  then show ?case using swept_step [of n h fl] by simp
qed

lemma swept_sweep: "swept h fl (length h) (sweep h fl)"
  using swept_upto [of "length h" h fl] by (simp add: sweep_def)

lemma mark_roots_err [simp]: "mark_roots (s\<lparr>err := e\<rparr>) = mark_roots s"
  by (simp add: mark_roots_def)

lemma garbage_collect_Done:
  assumes "garbage_collect s = Done u s'"
  shows "sweep (mark_roots s) (free_list s) = (heap s', free_list s', unmarked_count)
         \<Longrightarrow> unmarked_count \<noteq> 0"
    and "heap s' = fst (sweep (mark_roots s) (free_list s))"
    and "free_list s' = fst (snd (sweep (mark_roots s) (free_list s)))"
    and "binding_list s' = binding_list s" and "protect_table s' = protect_table s"
  using assms
  by (auto simp: garbage_collect_def Let_def eprintf_def split: prod.splits if_splits)

text \<open>
  Claim C1. When the collector runs on a heap whose marks are all clear and returns,
  every cell that was reachable from the binding list or from the protection table
  keeps its type tag, its car and its cdr; the cells that the mark phase marked are
  exactly the reachable ones; the cells it left unmarked are linked through their car
  fields into the free list, in front of the old free list; and every mark is clear.
\<close>

theorem garbage_collect_spec:
  assumes cl: "clear (heap s)" and gc: "garbage_collect s = Done u s'"
  shows "length (heap s') = length (heap s) \<and>
         (\<forall>i. live s i \<longrightarrow>
            cell_type (heap s' ! i) = cell_type (heap s ! i) \<and>
            cell_car (heap s' ! i) = cell_car (heap s ! i) \<and>
            cell_cdr (heap s' ! i) = cell_cdr (heap s ! i)) \<and>
         (\<forall>i<length (heap s). cell_mark (mark_roots s ! i) = live s i) \<and>
         chain (heap s') (free_list s')
           (rev (free_indices (mark_roots s) (length (heap s)))) (free_list s) \<and>
         clear (heap s')"
proof -
  define m where "m = mark_roots s"
  have me: "mark_ext (heap s) m" by (simp add: m_def mark_roots_marks mark_ext_marks)
  have lm: "length m = length (heap s)" using me by (rule mark_ext_len)
  have sw: "swept m (free_list s) (length m) (heap s', free_list s', snd (snd (sweep m (free_list s))))"
    using swept_sweep [of m "free_list s"] garbage_collect_Done(2,3) [OF gc]
    by (simp add: m_def)
  have len: "length (heap s') = length (heap s)" using sw lm by (simp add: swept_def)
  have cells: "\<And>k. k < length (heap s) \<Longrightarrow>
        \<not> cell_mark (heap s' ! k) \<and> cell_type (heap s' ! k) = cell_type (m ! k) \<and>
        cell_cdr (heap s' ! k) = cell_cdr (m ! k) \<and>
        (cell_mark (m ! k) \<longrightarrow> cell_car (heap s' ! k) = cell_car (m ! k))"
    using sw lm by (simp add: swept_def)
  have ch: "chain (heap s') (free_list s') (rev (free_indices m (length (heap s)))) (free_list s)"
    using sw lm by (simp add: swept_def)
  have marked: "cell_mark (m ! i) = live s i" if i: "i < length (heap s)" for i
  proof
    assume "cell_mark (m ! i)"
    moreover have "\<not> cell_mark (heap s ! i)" using cl i by (simp add: clear_def)
    ultimately show "live s i"
      using marks_sound [of i "heap s" "roots s"] i by (simp add: m_def mark_roots_marks live_def)
  next
    assume "live s i"
    then show "cell_mark (m ! i)"
      using marks_complete [OF cl] by (auto simp: live_def m_def mark_roots_marks)
  qed
  have kept: "cell_type (heap s' ! i) = cell_type (heap s ! i) \<and>
              cell_car (heap s' ! i) = cell_car (heap s ! i) \<and>
              cell_cdr (heap s' ! i) = cell_cdr (heap s ! i)" if lv: "live s i" for i
  proof -
    have i: "i < length (heap s)" using lv reach_lt by (auto simp: live_def)
    have "cell_mark (m ! i)" using marked [OF i] lv by simp
    then show ?thesis
      using cells [OF i] mark_ext_fields [OF me i] by (simp add: same_fields_def)
  qed
  have "clear (heap s')"
    unfolding clear_def using cells len by (auto simp: in_set_conv_nth)
  with len kept marked ch show ?thesis by (simp add: m_def)
qed

theorem garbage_collect_spec_witness:
  "clear (heap ex_gc) \<and>
   (\<exists>s'. garbage_collect ex_gc = Done () s' \<and> live ex_gc 1 \<and> \<not> live ex_gc 3 \<and>
     cell_car (heap s' ! 1) = Cell 2 \<and> free_list s' = Cell 4 \<and>
     chain (heap s') (free_list s') [4, 3] NULL \<and> clear (heap s'))"
proof -
  have cl: "clear (heap ex_gc)" by code_simp
  have "case garbage_collect ex_gc of Done u s' \<Rightarrow> free_list s' = Cell 4 | _ \<Rightarrow> False"
    by code_simp
  then obtain s' where gc: "garbage_collect ex_gc = Done () s'" and fl: "free_list s' = Cell 4"
    by (auto split: outcome.splits)
  have fi: "free_indices (mark_roots ex_gc) (length (heap ex_gc)) = [3, 4]" by code_simp
  have m: "cell_mark (mark_roots ex_gc ! 1)" "\<not> cell_mark (mark_roots ex_gc ! 3)" by code_simp+
  have e: "free_list ex_gc = NULL" "cell_car (heap ex_gc ! 1) = Cell 2" "length (heap ex_gc) = 6"
    by code_simp+
  show ?thesis
    using garbage_collect_spec [OF cl gc] cl gc fl fi m e by auto
qed

section \<open>The allocator: proofs\<close>


lemma swept_none:
  assumes sw: "swept m fl (length m) (h', fl', c)" and all: "\<forall>x \<in> set m. cell_mark x"
  shows "c = 0"
proof -
  have "free_indices m (length m) = []"
    using all by (auto simp: free_indices_def filter_empty_conv)
  then show ?thesis using sw by (simp add: swept_def)
qed

lemma swept_some:
  assumes sw: "swept m fl (length m) (h', fl', c)" and some: "\<not> (\<forall>x \<in> set m. cell_mark x)"
  shows "c \<noteq> 0 \<and> (\<exists>i<length m. fl' = Cell i \<and> \<not> cell_mark (m ! i))"
proof -
  from some obtain k where "k < length m" "\<not> cell_mark (m ! k)"
    by (auto simp: in_set_conv_nth)
  then have "k \<in> set (free_indices m (length m))" by (simp add: free_indices_def)
  then have ne: "rev (free_indices m (length m)) \<noteq> []" by auto
  then obtain i xs where r: "rev (free_indices m (length m)) = i # xs"
    by (cases "rev (free_indices m (length m))") auto
  then have "i \<in> set (free_indices m (length m))" by (metis list.set_intros(1) set_rev)
  then have i: "i < length m" "\<not> cell_mark (m ! i)" by (simp_all add: free_indices_def)
  have "fl' = Cell i" using sw r by (simp add: swept_def)
  moreover have "c \<noteq> 0" using sw ne by (simp add: swept_def)
  ultimately show ?thesis using i by auto
qed

lemma garbage_collect_fails:
  assumes all: "\<forall>x \<in> set (mark_roots s). cell_mark x"
  shows "\<exists>s'. garbage_collect s = Exited 1 s' \<and> last (err s') = gc_failed_msg"
proof -
  obtain h' fl' c where sp: "sweep (mark_roots s) (free_list s) = (h', fl', c)"
    by (cases "sweep (mark_roots s) (free_list s)") auto
  have "c = 0" using swept_none [OF _ all, of "free_list s" h' fl' c] swept_sweep [of "mark_roots s" "free_list s"] sp
    by simp
  then show ?thesis using sp by (simp add: garbage_collect_def Let_def eprintf_def)
qed

lemma garbage_collect_harvests:
  assumes some: "\<not> (\<forall>x \<in> set (mark_roots s). cell_mark x)"
  shows "\<exists>i s'. garbage_collect s = Done () s' \<and> free_list s' = Cell i \<and> i < length (heap s') \<and>
          \<not> cell_mark (mark_roots s ! i) \<and>
          err s' = err s @ [''Garbage collecting...'',
            ''harvested '' @ dec (length (free_indices (mark_roots s) (length (heap s)))) @ '' cells.'' @ [CHR 0x0A]]"
proof -
  define m where "m = mark_roots s"
  obtain h' fl' c where sp: "sweep m (free_list s) = (h', fl', c)" by (cases "sweep m (free_list s)") auto
  have sw: "swept m (free_list s) (length m) (h', fl', c)" using swept_sweep [of m "free_list s"] sp by simp
  have lm: "length m = length (heap s)" by (simp add: m_def mark_roots_marks)
  have c: "c = length (free_indices m (length m))" and lh: "length h' = length m"
    using sw by (simp_all add: swept_def)
  obtain i where "c \<noteq> 0" "i < length m" "fl' = Cell i" "\<not> cell_mark (m ! i)"
    using swept_some [OF sw] some by (auto simp: m_def)
  then show ?thesis using sp c lh lm
    by (simp add: garbage_collect_def Let_def eprintf_def m_def [symmetric])
qed

lemma pop_free_Done:
  "free_list s = Cell i \<Longrightarrow> i < length (heap s) \<Longrightarrow>
   \<exists>s'. pop_free t s = Done (Cell i) s' \<and> length (heap s') = length (heap s) \<and>
        heap s' ! i = \<lparr>cell_car = NULL, cell_cdr = NULL, cell_type = t, cell_mark = False\<rparr> \<and>
        err s' = err s \<and> out s' = out s"
  by (simp add: pop_free_def)

text \<open>
  Claim C6. A call of \<^verbatim>\<open>new_cell\<close> in a state whose free list is empty runs the collector
  first. When the mark phase has marked every cell, so that the sweep harvests nothing,
  the process exits with status 1 after the message "Garbage collection failed!", and
  nothing is returned to the caller. In every other case the call returns a cell of the
  heap whose tag is the requested one and whose car, cdr and mark are reset; after a
  collection that cell is one the mark phase left unmarked.
\<close>

theorem new_cell_spec:
  assumes ok: "init s \<or> heap s \<noteq> []"
    and fl: "init s \<Longrightarrow> free_list s = NULL \<or> (\<exists>i<length (heap s). free_list s = Cell i)"
  shows "if init s \<and> free_list s = NULL \<and> (\<forall>c \<in> set (mark_roots s). cell_mark c)
         then \<exists>s'. new_cell t s = Exited 1 s' \<and> last (err s') = gc_failed_msg
         else \<exists>i s'. new_cell t s = Done (Cell i) s' \<and> i < length (heap s') \<and>
                heap s' ! i = \<lparr>cell_car = NULL, cell_cdr = NULL, cell_type = t,
                                cell_mark = False\<rparr> \<and>
                (if init s \<and> free_list s = NULL
                 then \<not> cell_mark (mark_roots s ! i) \<and> hd (drop (length (err s)) (err s')) = ''Garbage collecting...''
                 else err s' = err s)"
proof (cases "init s")
  case False
  have "free_list (heap_init s) = Cell 0" "0 < length (heap (heap_init s))"
       "err (heap_init s) = err s"
    using False ok by (simp_all add: heap_init_def link_heap_def)
  then show ?thesis using False ok pop_free_Done [of "heap_init s" 0 t]
    by (auto simp: new_cell_def bnd_def)
next
  case True
  show ?thesis
  proof (cases "free_list s = NULL")
    case fl0: True
    show ?thesis
    proof (cases "\<forall>c \<in> set (mark_roots s). cell_mark c")
      case True
      then show ?thesis using \<open>init s\<close> fl0 garbage_collect_fails [of s]
        by (auto simp: new_cell_def bnd_def)
    next
      case False
      then obtain i s1 where gc: "garbage_collect s = Done () s1" "free_list s1 = Cell i"
          "i < length (heap s1)" "\<not> cell_mark (mark_roots s ! i)"
          "err s1 = err s @ [''Garbage collecting...'',
            ''harvested '' @ dec (length (free_indices (mark_roots s) (length (heap s)))) @ '' cells.'' @ [CHR 0x0A]]"
        using garbage_collect_harvests [of s] by auto
      then show ?thesis using \<open>init s\<close> fl0 False pop_free_Done [OF gc(2,3), of t]
        by (auto simp: new_cell_def bnd_def)
    qed
  next
    case False
    then obtain i where "free_list s = Cell i" "i < length (heap s)" using fl True by auto
    then show ?thesis using True False pop_free_Done [of s i t]
      by (auto simp: new_cell_def bnd_def)
  qed
qed

theorem new_cell_spec_witness:
  "(init ex_gc \<or> heap ex_gc \<noteq> []) \<and> free_list ex_gc = NULL \<and>
   (\<exists>i s'. new_cell CELL_ATOM ex_gc = Done (Cell i) s' \<and> i < length (heap s') \<and>
      heap s' ! i = \<lparr>cell_car = NULL, cell_cdr = NULL, cell_type = CELL_ATOM,
                      cell_mark = False\<rparr> \<and>
      \<not> cell_mark (mark_roots ex_gc ! i))"
proof -
  have a: "init ex_gc" "free_list ex_gc = NULL" "\<not> (\<forall>c \<in> set (mark_roots ex_gc). cell_mark c)"
    by code_simp+
  show ?thesis using new_cell_spec [of ex_gc CELL_ATOM] a by auto
qed

section \<open>Primitives and the evaluator: proofs\<close>

text \<open>
  Claim C9. \<^verbatim>\<open>car\<close> and \<^verbatim>\<open>cdr\<close> return the empty list on the empty list and the
  error cell on the error cell, in an unchanged state; on any other cell that is not a
  list they print their error message and return the error cell.
\<close>

theorem car_cdr_spec:
  "(a = nil_cell s \<longrightarrow> car a b s = Done (nil_cell s) s \<and> cdr a b s = Done (nil_cell s) s) \<and>
   (a = error_cell s \<longrightarrow> car a b s = Done (error_cell s) s \<and> cdr a b s = Done (error_cell s) s) \<and>
   (a \<noteq> nil_cell s \<and> a \<noteq> error_cell s \<and> deref a s = Some c \<and> cell_type c \<noteq> CELL_LIST \<longrightarrow>
      car a b s = Done (error_cell s) (printf ''Error: car: argument is not a list.'' s) \<and>
      cdr a b s = Done (error_cell s) (printf ''Error: cdr: argument is not a list.'' s))"
  by (auto simp: car_def cdr_def)

theorem car_cdr_spec_witness:
  "\<exists>s. initialize 20 (start 44 []) = Done () s \<and>
     nil_cell s = Cell 1 \<and> error_cell s = Cell 7 \<and> true_cell s = Cell 4 \<and>
     car (Cell 1) NULL s = Done (Cell 1) s \<and> cdr (Cell 1) NULL s = Done (Cell 1) s \<and>
     car (Cell 7) NULL s = Done (Cell 7) s \<and> cdr (Cell 7) NULL s = Done (Cell 7) s \<and>
     car (Cell 4) NULL s = Done (Cell 7) (printf ''Error: car: argument is not a list.'' s) \<and>
     cdr (Cell 4) NULL s = Done (Cell 7) (printf ''Error: cdr: argument is not a list.'' s)"
proof -
  have "case initialize 20 (start 44 []) of
          Done u s \<Rightarrow> nil_cell s = Cell 1 \<and> error_cell s = Cell 7 \<and> true_cell s = Cell 4 \<and>
            (case deref (Cell 4) s of Some c \<Rightarrow> cell_type c \<noteq> CELL_LIST | None \<Rightarrow> False)
        | _ \<Rightarrow> False"
    by code_simp
  then obtain s c where s: "initialize 20 (start 44 []) = Done () s" "nil_cell s = Cell 1"
      "error_cell s = Cell 7" "true_cell s = Cell 4" "deref (Cell 4) s = Some c"
      "cell_type c \<noteq> CELL_LIST"
    by (auto split: outcome.splits option.splits)
  show ?thesis
    using s car_cdr_spec [of "Cell 1" s NULL] car_cdr_spec [of "Cell 7" s NULL]
      car_cdr_spec [of "Cell 4" s NULL c]
    by auto
qed

text \<open>
  Claim C2, at the input \<^verbatim>\<open>(t)\<close>: the head evaluates to the atom \<open>t\<close>, which is
  neither a primitive nor a lambda. \<^verbatim>\<open>eval_lisp\<close> falls through its chain of cases and
  returns the expression itself, not the error cell; it prints nothing and leaves the
  expression on the protection table.
\<close>

theorem eval_lisp_noncallable:
  "\<exists>expr s. bnd (initialize 20 (start 44 (''(t)'' @ [CHR 0x0A]))) (\<lambda>_. read_eval 50) = Done expr s \<and>
     expr = Cell 41 \<and> heap s ! 41 = \<lparr>cell_car = true_cell s, cell_cdr = NULL, cell_type = CELL_LIST, cell_mark = False\<rparr> \<and>
     expr \<noteq> error_cell s \<and> out s = [] \<and> protect_table s = [expr]"
proof -
  have "case bnd (initialize 20 (start 44 (''(t)'' @ [CHR 0x0A]))) (\<lambda>_. read_eval 50) of
          Done expr s \<Rightarrow> expr = Cell 41 \<and> heap s ! 41 = \<lparr>cell_car = true_cell s, cell_cdr = NULL, cell_type = CELL_LIST, cell_mark = False\<rparr> \<and>
     expr \<noteq> error_cell s \<and> out s = [] \<and> protect_table s = [expr]
        | _ \<Rightarrow> False"
    by code_simp
  then show ?thesis by (auto split: outcome.splits)
qed

text \<open>
  Claim C3, at the input \<^verbatim>\<open>(if z (quote yes) (quote no))\<close> with \<open>z\<close> unbound: the
  condition evaluates to the error cell (the message is printed once), \<^verbatim>\<open>lisp_if\<close>
  compares the result with the empty list only, evaluates the first branch and returns
  the atom \<open>yes\<close>.
\<close>

theorem lisp_if_error_condition:
  "\<exists>r s. bnd (initialize 20 (start 60 (''(if z (quote yes) (quote no))'' @ [CHR 0x0A]))) (\<lambda>_. read_eval 50) = Done r s \<and>
     r \<noteq> error_cell s \<and> deref r s = Some \<lparr>cell_car = Str ''yes'', cell_cdr = NULL, cell_type = CELL_ATOM, cell_mark = False\<rparr> \<and>
     out s = [unbound_msg (Str ''z'')]"
proof -
  have "case bnd (initialize 20 (start 60 (''(if z (quote yes) (quote no))'' @ [CHR 0x0A]))) (\<lambda>_. read_eval 50) of
          Done r s \<Rightarrow> r \<noteq> error_cell s \<and> deref r s = Some \<lparr>cell_car = Str ''yes'', cell_cdr = NULL, cell_type = CELL_ATOM, cell_mark = False\<rparr> \<and>
     out s = [unbound_msg (Str ''z'')]
        | _ \<Rightarrow> False"
    by code_simp
  then show ?thesis by (auto split: outcome.splits)
qed

text \<open>
  Claim C5, in a heap of 44 cells after \<^verbatim>\<open>(quote t)\<close> has been read and evaluated: one
  cell is free. Interning the new name \<open>x\<close> takes that cell for the pair; the second
  allocation of \<^verbatim>\<open>new_atom\<close> finds the free list empty while the protection table is
  empty too, the collector harvests the pair, and the allocator hands the same cell
  out again as the atom. The entry that ends up on the binding list has the atom
  itself in the place of the pair.
\<close>

theorem new_atom_pair_unprotected:
  "\<exists>r s1 s2 s3 s4.
     bnd (initialize 20 (start 44 low_memory_input)) (\<lambda>_. read_eval 50) = Done r s1 \<and>
     find_atom 50 (binding_list s1) ''x'' s1 = Done None s1 \<and>
     new_cell CELL_LIST s1 = Done (Cell 43) s2 \<and>
     protect_table s2 = [] \<and> free_list s2 = NULL \<and>
     new_cell CELL_ATOM s2 = Done (Cell 43) s3 \<and>
     new_atom 50 ''x'' s1 = Done (Cell 43) s4 \<and>
     binding_list s4 = Cell 42 \<and> cell_car (heap s4 ! 42) = Cell 43 \<and>
     heap s4 ! 43 = \<lparr>cell_car = Str ''x'', cell_cdr = NULL, cell_type = CELL_ATOM,
                      cell_mark = False\<rparr>"
proof -
  have "case bnd (initialize 20 (start 44 low_memory_input)) (\<lambda>_. read_eval 50) of
          Done r s1 \<Rightarrow>
            find_atom 50 (binding_list s1) ''x'' s1 = Done None s1 \<and>
            (case new_cell CELL_LIST s1 of
               Done c s2 \<Rightarrow> c = Cell 43 \<and> protect_table s2 = [] \<and> free_list s2 = NULL \<and>
                 (case new_cell CELL_ATOM s2 of Done a s3 \<Rightarrow> a = Cell 43 | _ \<Rightarrow> False)
             | _ \<Rightarrow> False) \<and>
            (case new_atom 50 ''x'' s1 of
               Done a s4 \<Rightarrow> a = Cell 43 \<and> binding_list s4 = Cell 42 \<and>
                 cell_car (heap s4 ! 42) = Cell 43 \<and>
                 heap s4 ! 43 = \<lparr>cell_car = Str ''x'', cell_cdr = NULL, cell_type = CELL_ATOM,
                                  cell_mark = False\<rparr>
             | _ \<Rightarrow> False)
        | _ \<Rightarrow> False"
    by code_simp
  then show ?thesis by (auto split: outcome.splits)
qed

text \<open>
  Claim C7, in the same state: the first interning of \<open>x\<close> returns a cell, and the
  second one, instead of returning that cell, reads the name of the atom as if it were
  a cell, which is undefined in C.
\<close>

theorem new_atom_twice_undefined:
  "\<exists>r s1 a s2.
     bnd (initialize 20 (start 44 low_memory_input)) (\<lambda>_. read_eval 50) = Done r s1 \<and>
     new_atom 50 ''x'' s1 = Done a s2 \<and> new_atom 50 ''x'' s2 = Undefined"
proof -
  have "case bnd (initialize 20 (start 44 low_memory_input)) (\<lambda>_. read_eval 50) of
          Done r s1 \<Rightarrow>
            (case new_atom 50 ''x'' s1 of
               Done a s2 \<Rightarrow> new_atom 50 ''x'' s2 = Undefined
             | _ \<Rightarrow> False)
        | _ \<Rightarrow> False"
    by code_simp
  then show ?thesis by (auto split: outcome.splits)
qed

section \<open>Allocation and list construction: proofs\<close>

lemma chain_lt: "chain h p xs q \<Longrightarrow> i \<in> set xs \<Longrightarrow> i < length h"
  by (induction xs arbitrary: p) auto

lemma chain_same:
  "(\<And>i. i \<in> set xs \<Longrightarrow> h' ! i = h ! i) \<Longrightarrow> length h' = length h \<Longrightarrow>
   chain h' p xs q = chain h p xs q"
  by (induction xs arbitrary: p) auto

lemma CELL_eqI:
  "cell_car c = cell_car d \<Longrightarrow> cell_cdr c = cell_cdr d \<Longrightarrow> cell_type c = cell_type d \<Longrightarrow>
   cell_mark c = cell_mark d \<Longrightarrow> (c :: CELL) = d"
  by simp

lemma reset_cell:
  "(c :: CELL)\<lparr>cell_type := t, cell_cdr := NULL, cell_car := NULL, cell_mark := False\<rparr> = fresh t"
  by (cases c) (simp add: fresh_def)

lemma pop_free_spec:
  assumes wi: "weak_inv s (i # xs)"
  shows "\<exists>s'. pop_free t s = Done (Cell i) s' \<and> weak_inv s' xs \<and> i \<notin> set xs \<and>
           i < length (heap s) \<and> heap s' = (heap s)[i := fresh t] \<and>
           same_globals s s' \<and> err s' = err s"
proof -
  have fl: "free_list s = Cell i" and i: "i < length (heap s)"
    and ch: "chain (heap s) (cell_car (heap s ! i)) xs NULL"
    and d: "i \<notin> set xs" "distinct xs" and ini: "init s"
    and mk: "\<And>k. k < length (heap s) \<Longrightarrow> k \<noteq> i \<Longrightarrow> k \<notin> set xs \<Longrightarrow> \<not> cell_mark (heap s ! k)"
    using wi by (auto simp: weak_inv_def)
  define s' where "s' = s\<lparr>free_list := cell_car (heap s ! i), heap := (heap s)[i := fresh t]\<rparr>"
  have p: "pop_free t s = Done (Cell i) s'"
    using fl i by (simp add: pop_free_def s'_def reset_cell)
  have "chain (heap s') (free_list s') xs NULL"
    using ch d(1) by (simp add: s'_def chain_update)
  moreover have "\<forall>k<length (heap s'). k \<notin> set xs \<longrightarrow> \<not> cell_mark (heap s' ! k)"
    using mk i by (auto simp: s'_def nth_list_update fresh_def)
  ultimately have "weak_inv s' xs" using d ini by (simp add: weak_inv_def s'_def)
  then show ?thesis using p d i by (simp add: s'_def same_globals_def)
qed

lemma weak_inv_Nil_clear: "weak_inv s [] \<Longrightarrow> clear (heap s)"
  by (auto simp: weak_inv_def clear_def in_set_conv_nth)

lemma live_lt: "live s i \<Longrightarrow> i < length (heap s)"
  by (auto simp: live_def dest: reach_lt)

lemma garbage_collect_inv:
  assumes wi: "weak_inv s []" and gc: "garbage_collect s = Done u s'"
  shows "\<exists>xs. weak_inv s' xs \<and> xs \<noteq> [] \<and> (\<forall>i \<in> set xs. \<not> live s i) \<and>
           (\<forall>k. live s k \<longrightarrow> heap s' ! k = heap s ! k) \<and> same_globals s s'"
proof -
  have cl: "clear (heap s)" using wi by (rule weak_inv_Nil_clear)
  have fl: "free_list s = NULL" and ini: "init s" using wi by (simp_all add: weak_inv_def)
  note sp = garbage_collect_spec [OF cl gc]
  define xs where "xs = rev (free_indices (mark_roots s) (length (heap s)))"
  have len: "length (heap s') = length (heap s)" using sp by simp
  have ch: "chain (heap s') (free_list s') xs NULL" using sp fl by (simp add: xs_def)
  have cl': "clear (heap s')" using sp by simp
  have d: "distinct xs" by (simp add: xs_def free_indices_def)
  have nl: "\<forall>i \<in> set xs. \<not> live s i"
    using sp by (auto simp: xs_def free_indices_def)
  have kept: "heap s' ! k = heap s ! k" if "live s k" for k
  proof -
    have k: "k < length (heap s)" using that by (rule live_lt)
    have "\<not> cell_mark (heap s ! k)" "\<not> cell_mark (heap s' ! k)"
      using cl cl' k len by (simp_all add: clear_def)
    then show ?thesis using sp that by (intro CELL_eqI) simp_all
  qed
  have g: "same_globals s s'" "init s'"
    using gc ini by (auto simp: garbage_collect_def Let_def eprintf_def same_globals_def len
        split: prod.splits if_splits)
  have ne: "xs \<noteq> []"
  proof
    assume "xs = []"
    then have "\<forall>x \<in> set (mark_roots s). cell_mark x"
      by (auto simp: xs_def free_indices_def filter_empty_conv in_set_conv_nth mark_roots_marks)
    then show False using garbage_collect_fails [of s] gc by auto
  qed
  have "weak_inv s' xs"
    using ch d cl' g(2) len by (simp add: weak_inv_def clear_def)
  with ne nl kept g(1) show ?thesis by blast
qed

lemma new_cell_fresh:
  assumes wi: "weak_inv s xs" and nc: "new_cell t s = Done c s'"
  shows "\<exists>i xs'. c = Cell i \<and> i < length (heap s) \<and> weak_inv s' xs' \<and> i \<notin> set xs' \<and>
           heap s' ! i = fresh t \<and> same_globals s s' \<and>
           (if xs = [] then \<not> live s i \<and> (\<forall>k \<in> set xs'. \<not> live s k) \<and>
                            (\<forall>k. live s k \<longrightarrow> heap s' ! k = heap s ! k)
            else xs = i # xs' \<and> heap s' = (heap s)[i := fresh t])"
proof (cases xs)
  case Nil
  have fl: "free_list s = NULL" and ini: "init s" using wi Nil by (simp_all add: weak_inv_def)
  obtain s1 where gc: "garbage_collect s = Done () s1" and pf: "pop_free t s1 = Done c s'"
    using nc fl ini by (auto simp: new_cell_def bnd_def split: outcome.splits)
  obtain ys where ys: "weak_inv s1 ys" "ys \<noteq> []" "\<forall>i \<in> set ys. \<not> live s i"
      "\<forall>k. live s k \<longrightarrow> heap s1 ! k = heap s ! k" "same_globals s s1"
    using garbage_collect_inv [OF _ gc] wi Nil by auto
  obtain i xs' where y: "ys = i # xs'" using ys(2) by (cases ys) auto
  obtain s2 where p: "pop_free t s1 = Done (Cell i) s2" "weak_inv s2 xs'" "i \<notin> set xs'"
      "i < length (heap s1)" "heap s2 = (heap s1)[i := fresh t]" "same_globals s1 s2"
    using pop_free_spec [of s1 i xs' t] ys(1) y by auto
  have e: "c = Cell i" "s' = s2" using pf p(1) by simp_all
  have ni: "\<not> live s i" using ys(3) y by simp
  have "heap s' ! k = heap s ! k" if "live s k" for k
    using that ni ys(4) p(5) e by (cases "k = i") auto
  then show ?thesis
    using Nil e p ys(3,5) y ni by (auto simp: same_globals_def)
next
  case (Cons i xs')
  have fl: "free_list s = Cell i" and ini: "init s" using wi Cons by (simp_all add: weak_inv_def)
  obtain s2 where p: "pop_free t s = Done (Cell i) s2" "weak_inv s2 xs'" "i \<notin> set xs'"
      "i < length (heap s)" "heap s2 = (heap s)[i := fresh t]" "same_globals s s2"
    using pop_free_spec [of s i xs' t] wi Cons by auto
  have "new_cell t s = pop_free t s" using fl ini by (simp add: new_cell_def bnd_def)
  then show ?thesis using nc p Cons by auto
qed

lemma live_iff_marked:
  assumes "clear (heap s)" "i < length (heap s)"
  shows "live s i = cell_mark (mark_roots s ! i)"
proof
  assume "live s i"
  then show "cell_mark (mark_roots s ! i)"
    using marks_complete [OF assms(1)] by (auto simp: live_def mark_roots_marks)
next
  assume "cell_mark (mark_roots s ! i)"
  moreover have "\<not> cell_mark (heap s ! i)" using assms by (simp add: clear_def)
  ultimately show "live s i"
    using marks_sound [of i "heap s" "roots s"] assms(2)
    by (simp add: mark_roots_marks live_def)
qed

lemma alloc_invI:
  assumes "init s" "clear (heap s)" "chain (heap s) (free_list s) xs NULL" "distinct xs"
    and "\<forall>i \<in> set xs. \<not> cell_mark (mark_roots s ! i)"
  shows "alloc_inv s xs"
proof -
  have "\<not> live s i" if "i \<in> set xs" for i
    using that assms(5) live_iff_marked [OF assms(2) chain_lt [OF assms(3) that]] by simp
  moreover have "weak_inv s xs"
    using assms by (auto simp: weak_inv_def clear_def)
  ultimately show ?thesis by (simp add: alloc_inv_def)
qed

lemma live_protect: "live s i \<Longrightarrow> live (protect p s) i"
  by (auto simp: live_def roots_def protect_def)

lemma weak_inv_protect [simp]: "weak_inv (protect p s) xs = weak_inv s xs"
  by (simp add: weak_inv_def protect_def)

lemma weak_inv_unprotect [simp]: "weak_inv (unprotect s) xs = weak_inv s xs"
  by (simp add: weak_inv_def unprotect_def)

lemma pop_free_cell:
  "pop_free t s = Done c s' \<Longrightarrow> \<exists>i. c = Cell i \<and> i < length (heap s') \<and> heap s' ! i = fresh t"
proof (cases "free_list s")
  case (Cell i)
  assume p: "pop_free t s = Done c s'"
  then have i: "i < length (heap s)" using Cell by (cases "i < length (heap s)") (simp_all add: pop_free_def)
  then have "c = Cell i" "heap s' = (heap s)[i := fresh t]"
    using p Cell by (auto simp: pop_free_def reset_cell)
  then show ?thesis using i by simp
qed (simp_all add: pop_free_def)

lemma new_cell_cell:
  assumes "new_cell t s = Done c s'"
  shows "\<exists>i. c = Cell i \<and> i < length (heap s') \<and> heap s' ! i = fresh t"
proof -
  obtain s1 where "pop_free t s1 = Done c s'"
    using assms by (auto simp: new_cell_def bnd_def Let_def split: outcome.splits if_splits)
  then show ?thesis by (rule pop_free_cell)
qed

lemma cons_Done:
  assumes "a \<noteq> error_cell s" "b \<noteq> error_cell s" "deref b s = Some cb"
    "cell_type cb = CELL_LIST \<or> b = nil_cell s" "cons a b s = Done c s'"
  shows "\<exists>i s1. new_cell CELL_LIST (protect b (protect a s)) = Done (Cell i) s1 \<and> c = Cell i \<and>
           i < length (heap s1) \<and>
           s' = (unprotect (unprotect s1))\<lparr>heap := (heap s1)[i := (heap s1 ! i)
                  \<lparr>cell_car := a, cell_cdr := (if b = nil_cell s1 then NULL else b)\<rparr>]\<rparr>"
proof -
  obtain c1 s1 where nc: "new_cell CELL_LIST (protect b (protect a s)) = Done c1 s1"
    using assms by (auto simp: cons_def bnd_def split: outcome.splits)
  obtain i where i: "c1 = Cell i" "i < length (heap s1)"
    using new_cell_cell [OF nc] by auto
  show ?thesis
    using assms nc i
    by (auto simp: cons_def bnd_def cell_car_assign_def cell_cdr_assign_def unprotect_def)
qed

lemma new_cell_frame:
  assumes ai: "alloc_inv s xs" and nc: "new_cell t s = Done c s'"
  shows "\<exists>i. c = Cell i \<and> i < length (heap s) \<and> \<not> live s i \<and> heap s' ! i = fresh t \<and>
           same_globals s s' \<and> (\<forall>k. live s k \<longrightarrow> heap s' ! k = heap s ! k)"
proof -
  have wi: "weak_inv s xs" using ai by (simp add: alloc_inv_def)
  obtain i xs' where r: "c = Cell i" "i < length (heap s)" "heap s' ! i = fresh t"
      "same_globals s s'"
      "if xs = [] then \<not> live s i \<and> (\<forall>k \<in> set xs'. \<not> live s k) \<and>
                            (\<forall>k. live s k \<longrightarrow> heap s' ! k = heap s ! k)
            else xs = i # xs' \<and> heap s' = (heap s)[i := fresh t]"
    using new_cell_fresh [OF wi nc] by blast
  have nl: "\<not> live s i"
  proof (cases "xs = []")
    case True
    then show ?thesis using r(5) by simp
  next
    case False
    then show ?thesis using r(5) ai by (auto simp: alloc_inv_def)
  qed
  have "heap s' ! k = heap s ! k" if "live s k" for k
  proof (cases "xs = []")
    case True
    then show ?thesis using r(5) that by simp
  next
    case False
    then have "heap s' = (heap s)[i := fresh t]" using r(5) by simp
    moreover have "k \<noteq> i" using that nl by auto
    ultimately show ?thesis by simp
  qed
  then show ?thesis using r(1-4) nl by blast
qed

lemma live_root_cell: "p \<in> set (roots s) \<Longrightarrow> p = Cell i \<Longrightarrow> i < length (heap s) \<Longrightarrow> live s i"
  unfolding live_def by (blast intro: reach_root)

lemma deref_frame:
  assumes "length (heap s') = length (heap s)"
    and "\<And>i. p = Cell i \<Longrightarrow> i < length (heap s) \<Longrightarrow> heap s' ! i = heap s ! i"
  shows "deref p s' = deref p s"
  using assms by (cases p) (simp_all add: deref_def)

lemma cons_fresh:
  assumes ai: "alloc_inv (protect b (protect a s)) xs"
    and b: "deref b s = Some cb"
    and h: "a \<noteq> error_cell s" "b \<noteq> error_cell s" "cell_type cb = CELL_LIST \<or> b = nil_cell s"
      "cons a b s = Done c s'"
  shows "\<exists>i. c = Cell i \<and> i < length (heap s) \<and> \<not> live (protect b (protect a s)) i \<and>
             heap s' ! i = \<lparr>cell_car = a, cell_cdr = (if b = nil_cell s then NULL else b),
                             cell_type = CELL_LIST, cell_mark = False\<rparr>"
    and "c \<noteq> a" and "c \<noteq> b"
    and "\<forall>k. live (protect b (protect a s)) k \<longrightarrow> heap s' ! k = heap s ! k"
    and "deref a s' = deref a s" and "deref b s' = deref b s"
    and "length (heap s') = length (heap s)" and "binding_list s' = binding_list s"
    and "protect_table s' = protect_table s" and "nil_cell s' = nil_cell s"
    and "error_cell s' = error_cell s" and "out s' = out s"
proof -
  define sp where "sp = protect b (protect a s)"
  from h obtain i s1 where c: "new_cell CELL_LIST sp = Done (Cell i) s1"
      "c = Cell i" "i < length (heap s1)"
      "s' = (unprotect (unprotect s1))\<lparr>heap := (heap s1)[i := (heap s1 ! i)
                  \<lparr>cell_car := a, cell_cdr := (if b = nil_cell s1 then NULL else b)\<rparr>]\<rparr>"
    using cons_Done [OF h(1,2) b h(3,4)] unfolding sp_def by blast
  from new_cell_frame [OF ai [folded sp_def] c(1)]
  have f: "i < length (heap sp)" "\<not> live sp i" "heap s1 ! i = fresh CELL_LIST" "same_globals sp s1"
      "\<And>k. live sp k \<Longrightarrow> heap s1 ! k = heap sp ! k"
    by auto
  have hs: "heap sp = heap s" "roots sp = roots s @ [a, b]"
    by (simp_all add: sp_def protect_def roots_def)
  have g: "nil_cell s1 = nil_cell s" "error_cell s1 = error_cell s" "length (heap s1) = length (heap s)"
      "binding_list s1 = binding_list s" "protect_table s1 = protect_table s @ [a, b]" "out s1 = out s"
    using f(4) by (simp_all add: same_globals_def sp_def protect_def)
  have cell: "heap s' ! i = \<lparr>cell_car = a, cell_cdr = (if b = nil_cell s then NULL else b),
                                  cell_type = CELL_LIST, cell_mark = False\<rparr>"
    using c(3,4) f(3) g(1) by (simp add: unprotect_def fresh_def)
  have fr: "heap s' ! k = heap s ! k" if "live sp k" for k
  proof -
    have "k \<noteq> i" using that f(2) by auto
    then show ?thesis using c(4) f(5) [OF that] hs(1) by (simp add: unprotect_def)
  qed
  show "c \<noteq> a"
  proof
    assume "c = a"
    then have "a = Cell i" using c(2) by simp
    moreover have "a \<in> set (roots sp)" by (simp add: hs(2))
    ultimately have "live sp i" using live_root_cell f(1) by blast
    then show False using f(2) by simp
  qed
  show "c \<noteq> b"
  proof
    assume "c = b"
    then have "b = Cell i" using c(2) by simp
    moreover have "b \<in> set (roots sp)" by (simp add: hs(2))
    ultimately have "live sp i" using live_root_cell f(1) by blast
    then show False using f(2) by simp
  qed
  show len: "length (heap s') = length (heap s)" using c(4) g(3) by (simp add: unprotect_def)
  show "deref a s' = deref a s"
  proof (rule deref_frame [OF len])
    fix j assume j: "a = Cell j" "j < length (heap s)"
    have "a \<in> set (roots sp)" by (simp add: hs(2))
    then have "live sp j" using live_root_cell [OF _ j(1), of sp] j(2) hs(1) by simp
    then show "heap s' ! j = heap s ! j" by (rule fr)
  qed
  show "deref b s' = deref b s"
  proof (rule deref_frame [OF len])
    fix j assume j: "b = Cell j" "j < length (heap s)"
    have "b \<in> set (roots sp)" by (simp add: hs(2))
    then have "live sp j" using live_root_cell [OF _ j(1), of sp] j(2) hs(1) by simp
    then show "heap s' ! j = heap s ! j" by (rule fr)
  qed
  show "binding_list s' = binding_list s" using c(4) g by (simp add: unprotect_def)
  show "protect_table s' = protect_table s" using c(4) g by (simp add: unprotect_def butlast_append)
  show "nil_cell s' = nil_cell s" using c(4) g by (simp add: unprotect_def)
  show "error_cell s' = error_cell s" using c(4) g by (simp add: unprotect_def)
  show "out s' = out s" using c(4) g by (simp add: unprotect_def)
  show "\<exists>i. c = Cell i \<and> i < length (heap s) \<and> \<not> live (protect b (protect a s)) i \<and>
             heap s' ! i = \<lparr>cell_car = a, cell_cdr = (if b = nil_cell s then NULL else b),
                             cell_type = CELL_LIST, cell_mark = False\<rparr>"
    using c(2) f(1,2) hs(1) cell unfolding sp_def by auto
  show "\<forall>k. live (protect b (protect a s)) k \<longrightarrow> heap s' ! k = heap s ! k"
    using fr unfolding sp_def by simp
qed

text \<open>
  Claim C8. \<open>a\<close> and \<open>b\<close> are values: with the two of them on the protection table
  the allocator invariant holds, so that no cell reachable from the roots, from \<open>a\<close> or
  from \<open>b\<close> is on the free list. The empty list and the error cell are reachable from
  the roots. When \<^verbatim>\<open>cons\<close> of a non-error \<open>a\<close> and a list or empty list \<open>b\<close> returns
  a cell, that cell is a new one: it was reachable neither from the roots nor from \<open>a\<close>
  or \<open>b\<close>, and it is different from both. It holds \<open>a\<close> and \<open>b\<close> (the empty list is
  stored as null). Every cell that was reachable, the cells of \<open>a\<close> and \<open>b\<close> among
  them, is unchanged, with or without a collection, and so are the binding list, the
  protection table and the output. \<^verbatim>\<open>car\<close> of the new cell returns \<open>a\<close> and \<^verbatim>\<open>cdr\<close>
  returns \<open>b\<close>. When \<open>b\<close> is a cell that is neither a list nor the empty list,
  \<^verbatim>\<open>cons\<close> returns the error cell.
\<close>

theorem car_cdr_cons:
  assumes ai: "alloc_inv (protect b (protect a s)) xs"
    and nl: "nil_cell s = Cell n" "live s n"
    and er: "error_cell s = Cell e" "live s e"
    and b: "deref b s = Some cb"
  shows "(a \<noteq> error_cell s \<and> b \<noteq> error_cell s \<and> (cell_type cb = CELL_LIST \<or> b = nil_cell s) \<and>
          cons a b s = Done c s' \<longrightarrow>
            (\<exists>i. c = Cell i \<and> i < length (heap s) \<and> \<not> live (protect b (protect a s)) i \<and>
                  heap s' ! i = \<lparr>cell_car = a, cell_cdr = (if b = nil_cell s then NULL else b),
                                  cell_type = CELL_LIST, cell_mark = False\<rparr>) \<and>
            c \<noteq> a \<and> c \<noteq> b \<and>
            (\<forall>k. live (protect b (protect a s)) k \<longrightarrow> heap s' ! k = heap s ! k) \<and>
            deref a s' = deref a s \<and> deref b s' = deref b s \<and>
            length (heap s') = length (heap s) \<and> binding_list s' = binding_list s \<and>
            protect_table s' = protect_table s \<and> nil_cell s' = nil_cell s \<and>
            error_cell s' = error_cell s \<and> out s' = out s \<and>
            car c x s' = Done a s' \<and> cdr c y s' = Done b s') \<and>
         (\<not> (cell_type cb = CELL_LIST \<or> b = nil_cell s) \<longrightarrow>
            (\<exists>s'. cons a b s = Done (error_cell s) s'))"
proof (rule conjI; rule impI)
  assume "\<not> (cell_type cb = CELL_LIST \<or> b = nil_cell s)"
  then show "\<exists>s'. cons a b s = Done (error_cell s) s'"
    using b by (simp add: cons_def)
next
  assume h: "a \<noteq> error_cell s \<and> b \<noteq> error_cell s \<and>
             (cell_type cb = CELL_LIST \<or> b = nil_cell s) \<and> cons a b s = Done c s'"
  then have h': "a \<noteq> error_cell s" "b \<noteq> error_cell s" "cell_type cb = CELL_LIST \<or> b = nil_cell s"
      "cons a b s = Done c s'" by simp_all
  note cf = cons_fresh [OF ai b h']
  obtain i where i: "c = Cell i" "i < length (heap s)" "\<not> live (protect b (protect a s)) i"
      "heap s' ! i = \<lparr>cell_car = a, cell_cdr = (if b = nil_cell s then NULL else b),
                             cell_type = CELL_LIST, cell_mark = False\<rparr>"
    using cf(1) by blast
  have "\<not> live s i" using i(3) live_protect [of s i a] live_protect [of "protect a s" i b] by blast
  then have ne: "c \<noteq> nil_cell s'" "c \<noteq> error_cell s'"
    using nl er i(1) cf(10,11) by auto
  have dc: "deref c s' = Some \<lparr>cell_car = a, cell_cdr = (if b = nil_cell s then NULL else b),
                                  cell_type = CELL_LIST, cell_mark = False\<rparr>"
    using i(1,2,4) cf(7) by (simp add: deref_def)
  have bn: "b \<noteq> NULL" using b by (auto simp: deref_def)
  have "car c x s' = Done a s'" using ne dc by (simp add: car_def)
  moreover have "cdr c y s' = Done b s'" using ne dc bn cf(10) by (simp add: cdr_def)
  ultimately show "(\<exists>i. c = Cell i \<and> i < length (heap s) \<and> \<not> live (protect b (protect a s)) i \<and>
                  heap s' ! i = \<lparr>cell_car = a, cell_cdr = (if b = nil_cell s then NULL else b),
                                  cell_type = CELL_LIST, cell_mark = False\<rparr>) \<and>
            c \<noteq> a \<and> c \<noteq> b \<and>
            (\<forall>k. live (protect b (protect a s)) k \<longrightarrow> heap s' ! k = heap s ! k) \<and>
            deref a s' = deref a s \<and> deref b s' = deref b s \<and>
            length (heap s') = length (heap s) \<and> binding_list s' = binding_list s \<and>
            protect_table s' = protect_table s \<and> nil_cell s' = nil_cell s \<and>
            error_cell s' = error_cell s \<and> out s' = out s \<and>
            car c x s' = Done a s' \<and> cdr c y s' = Done b s'"
    using cf by (intro conjI) assumption+
qed

text \<open>
  An instance with a collection: after \<^verbatim>\<open>initialize\<close> in a heap of 44 cells, the lists \<open>(t)\<close> and
  \<open>(t t)\<close> are built and a third cell is used up and dropped, which leaves the free
  list empty. \<^verbatim>\<open>cons\<close> of \<open>t\<close> and the list \<open>(t t)\<close> then has to collect: it returns
  the dropped cell, and \<open>(t t)\<close> is intact.
\<close>

theorem car_cdr_cons_witness:
  "\<exists>s0 l1 sA l2 sB g s c s'.
     initialize 20 (start 44 []) = Done () s0 \<and>
     cons (Cell 4) (Cell 1) s0 = Done l1 sA \<and> cons (Cell 4) l1 sA = Done l2 sB \<and>
     cons (Cell 4) (Cell 1) sB = Done g s \<and> free_list s = NULL \<and>
     alloc_inv (protect l2 (protect (Cell 4) s)) [] \<and>
     nil_cell s = Cell 1 \<and> live s 1 \<and> error_cell s = Cell 7 \<and> live s 7 \<and>
     cons (Cell 4) l2 s = Done c s' \<and> c = g \<and> c \<noteq> l2 \<and> c \<noteq> Cell 4 \<and>
     car c NULL s' = Done (Cell 4) s' \<and> cdr c NULL s' = Done l2 s' \<and>
     deref l2 s' = deref l2 s \<and> deref (Cell 4) s' = deref (Cell 4) s \<and>
     (\<exists>s''. cons (Cell 4) (Cell 4) s = Done (Cell 7) s'')"
proof -
  have "case initialize 20 (start 44 []) of
          Done u s0 \<Rightarrow>
            (case cons (Cell 4) (Cell 1) s0 of
               Done l1 sA \<Rightarrow>
                 (case cons (Cell 4) l1 sA of
                    Done l2 sB \<Rightarrow>
                      (case cons (Cell 4) (Cell 1) sB of
                         Done g s \<Rightarrow>
                           init s \<and> clear (heap s) \<and> free_list s = NULL \<and>
                           cell_mark (mark_roots s ! 1) \<and> cell_mark (mark_roots s ! 7) \<and>
                           length (heap s) = 44 \<and> nil_cell s = Cell 1 \<and> error_cell s = Cell 7 \<and>
                           l2 \<noteq> Cell 7 \<and> l2 \<noteq> Cell 1 \<and>
                           (case deref l2 s of Some cb \<Rightarrow> cell_type cb = CELL_LIST | None \<Rightarrow> False) \<and>
                           (case deref (Cell 4) s of Some cb \<Rightarrow> cell_type cb \<noteq> CELL_LIST | None \<Rightarrow> False) \<and>
                           (case cons (Cell 4) l2 s of Done c s' \<Rightarrow> c = g | _ \<Rightarrow> False)
                       | _ \<Rightarrow> False)
                  | _ \<Rightarrow> False)
             | _ \<Rightarrow> False)
        | _ \<Rightarrow> False"
    by code_simp
  then obtain s0 l1 sA l2 sB g s cb cb4 c s' where s:
      "initialize 20 (start 44 []) = Done () s0"
      "cons (Cell 4) (Cell 1) s0 = Done l1 sA" "cons (Cell 4) l1 sA = Done l2 sB"
      "cons (Cell 4) (Cell 1) sB = Done g s"
      "init s" "clear (heap s)" "free_list s = NULL"
      "cell_mark (mark_roots s ! 1)" "cell_mark (mark_roots s ! 7)" "length (heap s) = 44"
      "nil_cell s = Cell 1" "error_cell s = Cell 7" "l2 \<noteq> Cell 7" "l2 \<noteq> Cell 1"
      "deref l2 s = Some cb" "cell_type cb = CELL_LIST"
      "deref (Cell 4) s = Some cb4" "cell_type cb4 \<noteq> CELL_LIST"
      "cons (Cell 4) l2 s = Done c s'" "c = g"
    by (auto split: outcome.splits option.splits)
  have ai: "alloc_inv (protect l2 (protect (Cell 4) s)) []"
    using s(5,6,7) by (intro alloc_invI) (simp_all add: protect_def)
  have l1: "live s 1" and l7: "live s 7"
    using s(6,8,9,10) by (simp_all add: live_iff_marked)
  have ai4: "alloc_inv (protect (Cell 4) (protect (Cell 4) s)) []"
    using s(5,6,7) by (intro alloc_invI) (simp_all add: protect_def)
  note A = car_cdr_cons [OF ai s(11) l1 s(12) l7 s(15), of c s' NULL NULL]
  note B = car_cdr_cons [OF ai4 s(11) l1 s(12) l7 s(17)]
  have "c \<noteq> l2 \<and> c \<noteq> Cell 4 \<and> car c NULL s' = Done (Cell 4) s' \<and> cdr c NULL s' = Done l2 s' \<and>
        deref l2 s' = deref l2 s \<and> deref (Cell 4) s' = deref (Cell 4) s"
    using A s(11,12,13,16,19) by simp
  moreover have "\<exists>s''. cons (Cell 4) (Cell 4) s = Done (Cell 7) s''"
    using B s(11,12,18) by simp
  ultimately show ?thesis using s ai l1 l7 by blast
qed

end
